theory Spec2Isabelle
  imports Complex_Main "HOL-Library.Multiset"
begin

section \<open>Randomness\<close>

text \<open>
  The program draws from two generators: Python's \<^verbatim>\<open>random\<close> module and
  \<^verbatim>\<open>numpy.random\<close>. Each generator is modelled as an entropy source, a
  stream of raw naturals that is read at an increasing position; a library call maps
  the raw values it reads into the range of results the library documents for it.
  Every result the library can return is the image of some raw value, and no other
  value is.

  Python's floats are idealised as reals, Python's unbounded integers are \<open>int\<close>.
\<close>

type_synonym entropy = "nat \<Rightarrow> nat"

text \<open>\<^verbatim>\<open>random._randbelow(n)\<close>: some integer of \<open>[0, n)\<close>.\<close>

definition randbelow :: "nat \<Rightarrow> nat \<Rightarrow> nat" where
  "randbelow n r = r mod n"

text \<open>\<^verbatim>\<open>random.randint(a, b)\<close> is \<^verbatim>\<open>a + _randbelow(b - a + 1)\<close>; the
  program calls it with \<open>a \<le> b\<close> only.\<close>

definition randint :: "int \<Rightarrow> int \<Rightarrow> nat \<Rightarrow> int" where
  "randint a b r = a + int (randbelow (nat (b - a + 1)) r)"

section \<open>Value Set Generator\<close>

text \<open>
  \<^verbatim>\<open>is_valid_values_set(values_set, num_values)\<close>. The comparison
  \<^verbatim>\<open>positive_count < num_values / 2\<close> is Python's true division. The index
  \<^verbatim>\<open>values_set[5]\<close> is read only after both counts passed the test with
  \<open>num_values = 6\<close>, where the list has at least six entries
  (lemma \<open>is_valid_values_set_index_ok\<close>), so no read is out of range.
\<close>

definition is_valid_values_set :: "int list \<Rightarrow> nat \<Rightarrow> bool" where
  "is_valid_values_set values_set num_values =
    (let positive_count = length (filter (\<lambda>v. v > 0) values_set);
         negative_count = length (filter (\<lambda>v. v < 0) values_set)
     in if real positive_count < real num_values / 2 \<or> real negative_count < real num_values / 2
        then False
        else if num_values = 6 then
          (let condition1_met = list_ex (\<lambda>b. b)
                 [sum_list (take 3 values_set) < 0,
                  sum_list (take 2 (drop 3 values_set)) < 0,
                  values_set ! 5 < 0,
                  sum_list [values_set ! 0, values_set ! 3, values_set ! 5] < 0,
                  sum_list [values_set ! 1, values_set ! 4] < 0,
                  values_set ! 2 < 0];
               condition2_met = list_ex (\<lambda>b. b)
                 [sum_list (take 3 values_set) > 0,
                  sum_list (take 2 (drop 3 values_set)) > 0,
                  values_set ! 5 > 0,
                  sum_list [values_set ! 0, values_set ! 3, values_set ! 5] > 0,
                  sum_list [values_set ! 1, values_set ! 4] > 0,
                  values_set ! 2 > 0];
               condition3_met = list_all (\<lambda>b. b)
                 [sum_list (take 3 values_set) \<noteq> 0,
                  sum_list (take 2 (drop 3 values_set)) \<noteq> 0,
                  values_set ! 5 \<noteq> 0,
                  sum_list [values_set ! 0, values_set ! 3, values_set ! 5] \<noteq> 0,
                  sum_list [values_set ! 1, values_set ! 4] \<noteq> 0,
                  values_set ! 2 \<noteq> 0]
           in list_all (\<lambda>b. b) [condition1_met, condition2_met, condition3_met])
        else False)"

text \<open>
  The inner \<^verbatim>\<open>while True\<close> of \<^verbatim>\<open>generate_random_sub_array\<close>: draw
  \<^verbatim>\<open>random.randint(-2, 2)\<close> until the value is not 0. The loop has no bound, so
  the result is an option: \<open>None\<close> is a run that never leaves the loop. On return the
  value comes with the position of the next unread raw value.
\<close>

partial_function (option) draw_nonzero :: "entropy \<Rightarrow> nat \<Rightarrow> (int \<times> nat) option" where
  "draw_nonzero raw pos =
    (let random_value = randint (- 2) 2 (raw pos)
     in if random_value \<noteq> 0 then Some (random_value, Suc pos)
        else draw_nonzero raw (Suc pos))"

text \<open>The \<^verbatim>\<open>for _ in range(num_values)\<close> loop, appending to \<open>sub_array\<close>.\<close>

fun sub_array_loop :: "nat \<Rightarrow> int list \<Rightarrow> entropy \<Rightarrow> nat \<Rightarrow> (int list \<times> nat) option" where
  "sub_array_loop 0 sub_array raw pos = Some (sub_array, pos)"
| "sub_array_loop (Suc k) sub_array raw pos =
    (case draw_nonzero raw pos of
       None \<Rightarrow> None
     | Some (random_value, pos') \<Rightarrow> sub_array_loop k (sub_array @ [random_value]) raw pos')"

definition generate_random_sub_array :: "nat \<Rightarrow> entropy \<Rightarrow> nat \<Rightarrow> (int list \<times> nat) option" where
  "generate_random_sub_array num_values raw pos = sub_array_loop num_values [] raw pos"

text \<open>\<^verbatim>\<open>generate_values_set\<close>: rejection sampling with no bound on the retries.\<close>

partial_function (option) generate_values_set :: "nat \<Rightarrow> entropy \<Rightarrow> nat \<Rightarrow> (int list \<times> nat) option" where
  "generate_values_set num_values raw pos =
    (case generate_random_sub_array num_values raw pos of
       None \<Rightarrow> None
     | Some (values_set, pos') \<Rightarrow>
         if is_valid_values_set values_set num_values then Some (values_set, pos')
         else generate_values_set num_values raw pos')"

text \<open>
  The six partial sums of a value set that the acceptance test inspects: entries 0 to 2
  summed, entries 3 and 4 summed, entry 5, entries 0, 3 and 5 summed, entries 1 and 4
  summed, entry 2. Stated here once more by index, for the properties below.
\<close>

definition six_partial_sums :: "int list \<Rightarrow> int list" where
  "six_partial_sums vs =
     [vs ! 0 + vs ! 1 + vs ! 2, vs ! 3 + vs ! 4, vs ! 5,
      vs ! 0 + vs ! 3 + vs ! 5, vs ! 1 + vs ! 4, vs ! 2]"

text \<open>
  An entropy source for a concrete run: a first raw value that maps to 0 (skipped by the
  inner loop), six that give the candidate \<open>[1, 1, 1, 1, 1, 1]\<close> (rejected), and
  six that give \<open>[2, 1, -1, -1, -2, 1]\<close>.
\<close>

definition example_entropy :: entropy where
  "example_entropy i = (if i < 13 then [2, 3, 3, 3, 3, 3, 3, 4, 3, 1, 1, 0, 3] ! i else 0)"

text \<open>
  An entropy source that agrees with \<open>raw\<close> below \<open>pos\<close> and from there on repeats
  the six raw values of the candidate \<open>[2, 1, -1, -1, -2, 1]\<close>.
\<close>

definition accept_from :: "entropy \<Rightarrow> nat \<Rightarrow> entropy" where
  "accept_from raw pos i = (if i < pos then raw i else [4, 3, 1, 1, 0, 3] ! ((i - pos) mod 6))"

section \<open>numpy's generator\<close>

text \<open>
  A cell of numpy's entropy source holds the raw bits of one draw and one standard normal
  deviate; \<^verbatim>\<open>np.random.random()\<close> reads the bits of the next cell,
  \<^verbatim>\<open>np.random.normal\<close> its deviate.
\<close>

type_synonym np_entropy = "nat \<Rightarrow> nat \<times> real"

text \<open>\<^verbatim>\<open>np.random.random()\<close>: a multiple of \<open>2\<^sup>-\<^sup>5\<^sup>3\<close> in \<open>[0, 1)\<close>.\<close>

definition np_random_random :: "nat \<times> real \<Rightarrow> real" where
  "np_random_random cell = real (fst cell mod 2 ^ 53) / 2 ^ 53"

section \<open>Feature-Based Decision Model\<close>

record FeatureBasedModel =
  beta :: real
  feature_values :: "string \<rightharpoonup> real"

text \<open>
  \<^verbatim>\<open>FeatureBasedModel.encode\<close>: the loop \<^verbatim>\<open>for feature in item_features\<close>
  over the two labels of the pair, adding the reward to a stored sum or storing it.
\<close>

fun encode_loop :: "(string \<rightharpoonup> real) \<Rightarrow> string list \<Rightarrow> real \<Rightarrow> (string \<rightharpoonup> real)" where
  "encode_loop fv [] r = fv"
| "encode_loop fv (f # fs) r =
     encode_loop (case fv f of Some v \<Rightarrow> fv(f \<mapsto> v + r) | None \<Rightarrow> fv(f \<mapsto> r)) fs r"

definition FeatureBasedModel_encode ::
    "FeatureBasedModel \<Rightarrow> string \<times> string \<Rightarrow> real \<Rightarrow> FeatureBasedModel" where
  "FeatureBasedModel_encode self item_features r =
     self\<lparr>feature_values :=
       encode_loop (feature_values self) [fst item_features, snd item_features] r\<rparr>"

text \<open>A sequence of \<^verbatim>\<open>encode\<close> calls, one per episode, in list order.\<close>

fun FeatureBasedModel_encode_all ::
    "FeatureBasedModel \<Rightarrow> ((string \<times> string) \<times> real) list \<Rightarrow> FeatureBasedModel" where
  "FeatureBasedModel_encode_all self [] = self"
| "FeatureBasedModel_encode_all self ((features, r) # rest) =
     FeatureBasedModel_encode_all (FeatureBasedModel_encode self features r) rest"

text \<open>
  \<^verbatim>\<open>FeatureBasedModel.decide\<close>: the loop \<^verbatim>\<open>for feature in offer_feature\<close>
  returns from inside at the first label that is a key of the map; the uniform draw is
  made only there. The result comes with the position of the next unread cell.
\<close>

fun fb_decide_loop ::
    "(string \<rightharpoonup> real) \<Rightarrow> real \<Rightarrow> string list \<Rightarrow> np_entropy \<Rightarrow> nat \<Rightarrow> (int \<times> int) \<times> nat" where
  "fb_decide_loop fv b [] np pos = ((0, 2), pos)"
| "fb_decide_loop fv b (f # fs) np pos =
     (case fv f of
        Some v \<Rightarrow>
          (let p_accept = 1 / (1 + exp (- b * v));
               c = (if np_random_random (np pos) < p_accept then 1 else 0)
           in ((c, 2), Suc pos))
      | None \<Rightarrow> fb_decide_loop fv b fs np pos)"

definition FeatureBasedModel_decide ::
    "FeatureBasedModel \<Rightarrow> string \<times> string \<Rightarrow> np_entropy \<Rightarrow> nat \<Rightarrow> (int \<times> int) \<times> nat" where
  "FeatureBasedModel_decide self offer_feature np pos =
     fb_decide_loop (feature_values self) (beta self) [fst offer_feature, snd offer_feature] np pos"

text \<open>
  The sum of the rewards of the episodes whose feature pair contains \<open>F\<close>, and the
  number of slots of a pair that hold \<open>F\<close>.
\<close>

definition reward_sum :: "string \<Rightarrow> ((string \<times> string) \<times> real) list \<Rightarrow> real" where
  "reward_sum F eps = sum_list (map snd (filter (\<lambda>e. F = fst (fst e) \<or> F = snd (fst e)) eps))"

definition occurrences :: "string \<Rightarrow> string \<times> string \<Rightarrow> nat" where
  "occurrences F p = (if fst p = F then 1 else 0) + (if snd p = F then 1 else 0)"

definition empty_feature_model :: "real \<Rightarrow> FeatureBasedModel" where
  "empty_feature_model b = \<lparr>beta = b, feature_values = Map.empty\<rparr>"

section \<open>Shuffling\<close>

text \<open>
  \<^verbatim>\<open>random.shuffle(x)\<close> and the shuffle behind \<^verbatim>\<open>np.random.permutation\<close>
  are the same exchange loop: \<^verbatim>\<open>for i in reversed(range(1, len(x)))\<close>, draw
  \<open>j\<close> from \<open>[0, i]\<close> and exchange \<open>x[i]\<close> and \<open>x[j]\<close>.
\<close>

fun shuffle_loop :: "nat \<Rightarrow> 'a list \<Rightarrow> entropy \<Rightarrow> nat \<Rightarrow> 'a list \<times> nat" where
  "shuffle_loop 0 x raw pos = (x, pos)"
| "shuffle_loop (Suc i) x raw pos =
     (let j = randbelow (Suc i + 1) (raw pos)
      in shuffle_loop i (x[Suc i := x ! j, j := x ! Suc i]) raw (Suc pos))"

definition shuffle :: "'a list \<Rightarrow> entropy \<Rightarrow> nat \<Rightarrow> 'a list \<times> nat" where
  "shuffle x raw pos = shuffle_loop (length x - 1) x raw pos"

text \<open>\<^verbatim>\<open>np.random.permutation(n)\<close>: \<^verbatim>\<open>arange(n)\<close>, shuffled.\<close>

definition np_random_permutation :: "nat \<Rightarrow> np_entropy \<Rightarrow> nat \<Rightarrow> nat list \<times> nat" where
  "np_random_permutation n np pos = shuffle [0..<n] (\<lambda>i. fst (np i)) pos"

datatype error = IndexError | KeyError | ValueError | UnboundLocalError

text \<open>
  \<^verbatim>\<open>np.random.normal(loc, scale)\<close> is \<open>loc + scale * z\<close> for a standard normal
  deviate \<open>z\<close>; numpy raises \<^verbatim>\<open>ValueError\<close> for a negative scale.
\<close>

definition np_random_normal :: "real \<Rightarrow> real \<Rightarrow> nat \<times> real \<Rightarrow> error + real" where
  "np_random_normal loc scale cell =
     (if scale < 0 then Inl ValueError else Inr (loc + scale * snd cell))"

section \<open>Episodic Decision Model\<close>

record Episode =
  item_features :: "string \<times> string"
  reward :: real

record EpisodicModel =
  non_decision_time :: real
  recall_time :: real
  recall_noise :: real
  p_stop :: real
  max_decision_time :: real
  episodes :: "Episode list"

definition EpisodicModel_encode :: "EpisodicModel \<Rightarrow> string \<times> string \<Rightarrow> real \<Rightarrow> EpisodicModel" where
  "EpisodicModel_encode self features r =
     self\<lparr>episodes := episodes self @ [\<lparr>item_features = features, reward = r\<rparr>]\<rparr>"

text \<open>
  The loop \<^verbatim>\<open>for idx in recall_order\<close> of \<^verbatim>\<open>EpisodicModel.decide\<close>. The
  loop state is \<open>(elapsed_time, summed_value, n_recalled)\<close> and the position of the
  next unread cell of numpy's source. Each \<^verbatim>\<open>break\<close> returns the state as it is.
  \<^verbatim>\<open>self.episodes[idx]\<close> raises \<^verbatim>\<open>IndexError\<close> for an index past the end.
\<close>

fun recall_loop ::
    "EpisodicModel \<Rightarrow> string \<times> string \<Rightarrow> nat list \<Rightarrow> np_entropy
       \<Rightarrow> real \<times> real \<times> nat \<times> nat \<Rightarrow> error + real \<times> real \<times> nat \<times> nat" where
  "recall_loop self offer_feature [] np st = Inr st"
| "recall_loop self offer_feature (idx # rest) np (elapsed_time, summed_value, n_recalled, pos) =
     (if np_random_random (np pos) < p_stop self * (real n_recalled + 1)
      then Inr (elapsed_time, summed_value, n_recalled, Suc pos)
      else
        (let next_recall_time = recall_time self
         in if elapsed_time + next_recall_time > max_decision_time self
            then Inr (elapsed_time, summed_value, n_recalled, Suc pos)
            else if idx \<ge> length (episodes self) then Inl IndexError
            else
              (let episode = episodes self ! idx;
                   elapsed_time' = elapsed_time + next_recall_time;
                   n_recalled' = n_recalled + 1
               in if fst offer_feature \<in> {fst (item_features episode), snd (item_features episode)}
                     \<or> snd offer_feature \<in> {fst (item_features episode), snd (item_features episode)}
                  then
                    (case np_random_normal 0 (recall_noise self) (np (Suc pos)) of
                       Inl e \<Rightarrow> Inl e
                     | Inr noise \<Rightarrow>
                         (let recalled_reward = reward episode + noise
                          in recall_loop self offer_feature rest np
                               (elapsed_time', summed_value + recalled_reward, n_recalled',
                                Suc (Suc pos))))
                  else recall_loop self offer_feature rest np
                         (elapsed_time', summed_value, n_recalled', Suc pos))))"

text \<open>
  \<^verbatim>\<open>EpisodicModel.decide\<close>: choice, elapsed time, number of recalled memories and
  summed value, with the position of the next unread cell.
\<close>

definition EpisodicModel_decide ::
    "EpisodicModel \<Rightarrow> string \<times> string \<Rightarrow> np_entropy \<Rightarrow> nat
       \<Rightarrow> error + (int \<times> real \<times> nat \<times> real) \<times> nat" where
  "EpisodicModel_decide self offer_feature np pos =
     (let elapsed_time = non_decision_time self;
          summed_value = 0;
          n_recalled = 0;
          (recall_order, pos1) = np_random_permutation (length (episodes self)) np pos
      in case recall_loop self offer_feature recall_order np
                (elapsed_time, summed_value, n_recalled, pos1) of
           Inl e \<Rightarrow> Inl e
         | Inr (elapsed_time, summed_value, n_recalled, pos2) \<Rightarrow>
             Inr ((if summed_value > 0 then 1 else 0, elapsed_time, n_recalled, summed_value),
                  pos2))"

text \<open>
  The test \<^verbatim>\<open>offer_feature[0] in episode.item_features or offer_feature[1] in
  episode.item_features\<close> of the loop, and the stored episodes as (pair, reward) data.
\<close>

definition matches :: "string \<times> string \<Rightarrow> Episode \<Rightarrow> bool" where
  "matches offer e \<longleftrightarrow>
     fst offer \<in> {fst (item_features e), snd (item_features e)}
     \<or> snd offer \<in> {fst (item_features e), snd (item_features e)}"

definition episode_pairs :: "EpisodicModel \<Rightarrow> ((string \<times> string) \<times> real) list" where
  "episode_pairs m = map (\<lambda>e. (item_features e, reward e)) (episodes m)"

text \<open>
  A concrete model: the parameters that \<^verbatim>\<open>simulate_trials\<close> configures, with two
  encoded episodes; and a numpy source whose every uniform draw is 1/2 and whose every
  normal deviate is 0.
\<close>

definition example_model :: EpisodicModel where
  "example_model =
     \<lparr>non_decision_time = 3 / 2, recall_time = 1 / 2, recall_noise = 1 / 2, p_stop = 1 / 10,
      max_decision_time = 15 / 2,
      episodes = [\<lparr>item_features = (''Food'', ''Blue''), reward = 2\<rparr>,
                  \<lparr>item_features = (''Scene'', ''Blue''), reward = - 1\<rparr>]\<rparr>"

definition example_np :: np_entropy where
  "example_np i = (2 ^ 52, 0)"

text \<open>
  Two further parameterisations: a non-decision time above the max decision time, with no
  episode stored; and a negative recall time, with one episode stored.
\<close>

definition late_model :: EpisodicModel where
  "late_model =
     \<lparr>non_decision_time = 10, recall_time = 1 / 2, recall_noise = 1 / 2, p_stop = 1 / 10,
      max_decision_time = 15 / 2, episodes = []\<rparr>"

definition rewinding_model :: EpisodicModel where
  "rewinding_model =
     \<lparr>non_decision_time = 3 / 2, recall_time = - (1 / 2), recall_noise = 1 / 2, p_stop = 1 / 10,
      max_decision_time = 15 / 2,
      episodes = [\<lparr>item_features = (''Food'', ''Blue''), reward = 2\<rparr>]\<rparr>"

definition patient_model :: EpisodicModel where
  "patient_model =
     \<lparr>non_decision_time = 3 / 2, recall_time = 1 / 2, recall_noise = 0, p_stop = 0,
      max_decision_time = 15 / 2,
      episodes = [\<lparr>item_features = (''Food'', ''Blue''), reward = 2\<rparr>,
                  \<lparr>item_features = (''Scene'', ''Blue''), reward = - 1\<rparr>]\<rparr>"

text \<open>
  The recall loop in the words of the specification. The stop probability for an attempt
  is the base times the number of recalls committed so far plus one. A run over the
  remaining recall order, from a state \<open>(elapsed, summed, recalled, position)\<close>:
  first the stop check, then the time check, then the commit. A commit with a match
  draws the noise, for which numpy wants a scale that is not negative.
\<close>

definition stop_probability :: "EpisodicModel \<Rightarrow> nat \<Rightarrow> real" where
  "stop_probability m recalled_count = p_stop m * (real recalled_count + 1)"

inductive recall_spec ::
    "EpisodicModel \<Rightarrow> string \<times> string \<Rightarrow> np_entropy \<Rightarrow> nat list
       \<Rightarrow> real \<times> real \<times> nat \<times> nat \<Rightarrow> real \<times> real \<times> nat \<times> nat \<Rightarrow> bool"
  for m :: EpisodicModel and offer :: "string \<times> string" and np :: np_entropy where
  exhausted: "recall_spec m offer np [] s s"
| stop:
    "np_random_random (np pos) < stop_probability m n \<Longrightarrow>
     recall_spec m offer np (idx # rest) (t, v, n, pos) (t, v, n, Suc pos)"
| out_of_time:
    "\<not> np_random_random (np pos) < stop_probability m n \<Longrightarrow>
     t + recall_time m > max_decision_time m \<Longrightarrow>
     recall_spec m offer np (idx # rest) (t, v, n, pos) (t, v, n, Suc pos)"
| commit_match:
    "\<not> np_random_random (np pos) < stop_probability m n \<Longrightarrow>
     t + recall_time m \<le> max_decision_time m \<Longrightarrow>
     idx < length (episodes m) \<Longrightarrow>
     matches offer (episodes m ! idx) \<Longrightarrow>
     0 \<le> recall_noise m \<Longrightarrow>
     recall_spec m offer np rest
       (t + recall_time m,
        v + (reward (episodes m ! idx) + recall_noise m * snd (np (Suc pos))),
        Suc n, Suc (Suc pos)) s' \<Longrightarrow>
     recall_spec m offer np (idx # rest) (t, v, n, pos) s'"
| commit_other:
    "\<not> np_random_random (np pos) < stop_probability m n \<Longrightarrow>
     t + recall_time m \<le> max_decision_time m \<Longrightarrow>
     idx < length (episodes m) \<Longrightarrow>
     \<not> matches offer (episodes m ! idx) \<Longrightarrow>
     recall_spec m offer np rest (t + recall_time m, v, Suc n, Suc pos) s' \<Longrightarrow>
     recall_spec m offer np (idx # rest) (t, v, n, pos) s'"

section \<open>Stimulus Generator\<close>

text \<open>
  The catalog of \<^verbatim>\<open>get_items_for_games\<close>: for each of the five configurations the
  eight item sets and the eight decision-option sets, as the source lists them.
\<close>

definition full_item_set_1 :: "string list list" where
  "full_item_set_1 =
     [[''Food_Blue'', ''Food_Green'', ''Food_Red'', ''Object_Blue'', ''Object_Green'', ''Scene_Blue''],
      [''Scene_Yellow'', ''Scene_Green'', ''Scene_Blue'', ''Food_Yellow'', ''Food_Green'', ''Animal_Yellow''],
      [''Object_Red'', ''Object_Green'', ''Object_Yellow'', ''Animal_Red'', ''Animal_Green'', ''Scene_Red''],
      [''Object_Blue'', ''Object_Yellow'', ''Object_Red'', ''Animal_Blue'', ''Animal_Yellow'', ''Food_Blue''],
      [''Scene_Green'', ''Scene_Blue'', ''Scene_Yellow'', ''Animal_Green'', ''Animal_Blue'', ''Object_Green''],
      [''Food_Red'', ''Food_Yellow'', ''Food_Blue'', ''Animal_Red'', ''Animal_Yellow'', ''Scene_Red''],
      [''Scene_Yellow'', ''Scene_Green'', ''Scene_Red'', ''Food_Yellow'', ''Food_Green'', ''Object_Yellow''],
      [''Animal_Red'', ''Animal_Blue'', ''Animal_Green'', ''Object_Red'', ''Object_Blue'', ''Food_Red'']]"

definition full_dec_set_1 :: "string list list" where
  "full_dec_set_1 =
     [[''Object'', ''Green'', ''Red'', ''Scene'', ''Blue'', ''Food''],
      [''Scene'', ''Food'', ''Animal'', ''Yellow'', ''Blue'', ''Green''],
      [''Red'', ''Green'', ''Object'', ''Yellow'', ''Animal'', ''Scene''],
      [''Food'', ''Yellow'', ''Animal'', ''Red'', ''Blue'', ''Object''],
      [''Animal'', ''Blue'', ''Scene'', ''Green'', ''Yellow'', ''Object''],
      [''Yellow'', ''Animal'', ''Food'', ''Scene'', ''Blue'', ''Red''],
      [''Food'', ''Green'', ''Yellow'', ''Scene'', ''Object'', ''Red''],
      [''Red'', ''Object'', ''Green'', ''Blue'', ''Animal'', ''Food'']]"

definition full_item_set_2 :: "string list list" where
  "full_item_set_2 =
     [[''Object_Blue'', ''Object_Green'', ''Object_Yellow'', ''Animal_Blue'', ''Animal_Green'', ''Food_Blue''],
      [''Scene_Red'', ''Scene_Blue'', ''Scene_Green'', ''Object_Red'', ''Object_Blue'', ''Food_Red''],
      [''Food_Yellow'', ''Food_Red'', ''Food_Green'', ''Animal_Yellow'', ''Animal_Red'', ''Scene_Yellow''],
      [''Animal_Yellow'', ''Animal_Blue'', ''Animal_Red'', ''Scene_Yellow'', ''Scene_Blue'', ''Object_Yellow''],
      [''Food_Green'', ''Food_Yellow'', ''Food_Blue'', ''Animal_Green'', ''Animal_Yellow'', ''Scene_Green''],
      [''Food_Green'', ''Food_Red'', ''Food_Yellow'', ''Scene_Green'', ''Scene_Red'', ''Object_Green''],
      [''Scene_Red'', ''Scene_Yellow'', ''Scene_Blue'', ''Object_Red'', ''Object_Yellow'', ''Animal_Red''],
      [''Object_Blue'', ''Object_Green'', ''Object_Red'', ''Animal_Blue'', ''Animal_Green'', ''Food_Blue'']]"

definition full_dec_set_2 :: "string list list" where
  "full_dec_set_2 =
     [[''Object'', ''Blue'', ''Yellow'', ''Animal'', ''Food'', ''Green''],
      [''Food'', ''Red'', ''Green'', ''Blue'', ''Object'', ''Scene''],
      [''Scene'', ''Food'', ''Red'', ''Green'', ''Yellow'', ''Animal''],
      [''Object'', ''Animal'', ''Scene'', ''Yellow'', ''Red'', ''Blue''],
      [''Scene'', ''Animal'', ''Green'', ''Blue'', ''Food'', ''Yellow''],
      [''Green'', ''Scene'', ''Yellow'', ''Red'', ''Food'', ''Object''],
      [''Scene'', ''Yellow'', ''Red'', ''Object'', ''Blue'', ''Animal''],
      [''Food'', ''Object'', ''Blue'', ''Green'', ''Red'', ''Animal'']]"

definition full_item_set_3 :: "string list list" where
  "full_item_set_3 =
     [[''Animal_Yellow'', ''Animal_Blue'', ''Animal_Green'', ''Scene_Yellow'', ''Scene_Blue'', ''Food_Yellow''],
      [''Food_Green'', ''Food_Blue'', ''Food_Red'', ''Object_Green'', ''Object_Blue'', ''Scene_Green''],
      [''Scene_Red'', ''Scene_Yellow'', ''Scene_Blue'', ''Animal_Red'', ''Animal_Yellow'', ''Object_Red''],
      [''Food_Red'', ''Food_Yellow'', ''Food_Green'', ''Object_Red'', ''Object_Yellow'', ''Animal_Red''],
      [''Animal_Green'', ''Animal_Red'', ''Animal_Blue'', ''Scene_Green'', ''Scene_Red'', ''Object_Green''],
      [''Food_Green'', ''Food_Red'', ''Food_Yellow'', ''Scene_Green'', ''Scene_Red'', ''Animal_Green''],
      [''Object_Blue'', ''Object_Yellow'', ''Object_Green'', ''Scene_Blue'', ''Scene_Yellow'', ''Food_Blue''],
      [''Object_Blue'', ''Object_Yellow'', ''Object_Red'', ''Animal_Blue'', ''Animal_Yellow'', ''Food_Blue'']]"

definition full_dec_set_3 :: "string list list" where
  "full_dec_set_3 =
     [[''Animal'', ''Blue'', ''Yellow'', ''Scene'', ''Green'', ''Food''],
      [''Food'', ''Scene'', ''Blue'', ''Red'', ''Green'', ''Object''],
      [''Object'', ''Blue'', ''Yellow'', ''Animal'', ''Red'', ''Scene''],
      [''Animal'', ''Red'', ''Object'', ''Yellow'', ''Green'', ''Food''],
      [''Red'', ''Object'', ''Green'', ''Scene'', ''Blue'', ''Animal''],
      [''Green'', ''Food'', ''Red'', ''Yellow'', ''Scene'', ''Animal''],
      [''Scene'', ''Yellow'', ''Food'', ''Blue'', ''Green'', ''Object''],
      [''Blue'', ''Object'', ''Yellow'', ''Animal'', ''Food'', ''Red'']]"

definition full_item_set_4 :: "string list list" where
  "full_item_set_4 =
     [[''Object_Yellow'', ''Object_Red'', ''Object_Green'', ''Animal_Yellow'', ''Animal_Red'', ''Food_Yellow''],
      [''Scene_Blue'', ''Scene_Yellow'', ''Scene_Green'', ''Food_Blue'', ''Food_Yellow'', ''Object_Blue''],
      [''Food_Green'', ''Food_Red'', ''Food_Blue'', ''Scene_Green'', ''Scene_Red'', ''Animal_Green''],
      [''Animal_Yellow'', ''Animal_Blue'', ''Animal_Red'', ''Scene_Yellow'', ''Scene_Blue'', ''Object_Yellow''],
      [''Object_Green'', ''Object_Blue'', ''Object_Yellow'', ''Animal_Green'', ''Animal_Blue'', ''Food_Green''],
      [''Scene_Red'', ''Scene_Blue'', ''Scene_Yellow'', ''Food_Red'', ''Food_Blue'', ''Object_Red''],
      [''Object_Green'', ''Object_Blue'', ''Object_Red'', ''Animal_Green'', ''Animal_Blue'', ''Scene_Green''],
      [''Food_Red'', ''Food_Yellow'', ''Food_Green'', ''Animal_Red'', ''Animal_Yellow'', ''Scene_Red'']]"

definition full_dec_set_4 :: "string list list" where
  "full_dec_set_4 =
     [[''Animal'', ''Green'', ''Yellow'', ''Object'', ''Red'', ''Food''],
      [''Blue'', ''Yellow'', ''Green'', ''Object'', ''Food'', ''Scene''],
      [''Red'', ''Animal'', ''Scene'', ''Food'', ''Blue'', ''Green''],
      [''Object'', ''Red'', ''Yellow'', ''Scene'', ''Animal'', ''Blue''],
      [''Green'', ''Object'', ''Food'', ''Animal'', ''Blue'', ''Yellow''],
      [''Food'', ''Object'', ''Yellow'', ''Blue'', ''Red'', ''Scene''],
      [''Object'', ''Red'', ''Scene'', ''Green'', ''Blue'', ''Animal''],
      [''Green'', ''Animal'', ''Scene'', ''Food'', ''Yellow'', ''Red'']]"

definition full_item_set_5 :: "string list list" where
  "full_item_set_5 =
     [[''Scene_Blue'', ''Scene_Yellow'', ''Scene_Red'', ''Animal_Blue'', ''Animal_Yellow'', ''Food_Blue''],
      [''Food_Yellow'', ''Food_Green'', ''Food_Red'', ''Scene_Yellow'', ''Scene_Green'', ''Object_Yellow''],
      [''Animal_Yellow'', ''Animal_Blue'', ''Animal_Green'', ''Object_Yellow'', ''Object_Blue'', ''Food_Yellow''],
      [''Object_Red'', ''Object_Green'', ''Object_Blue'', ''Animal_Red'', ''Animal_Green'', ''Scene_Red''],
      [''Object_Green'', ''Object_Red'', ''Object_Yellow'', ''Scene_Green'', ''Scene_Red'', ''Animal_Green''],
      [''Food_Blue'', ''Food_Red'', ''Food_Green'', ''Animal_Blue'', ''Animal_Red'', ''Scene_Blue''],
      [''Scene_Green'', ''Scene_Blue'', ''Scene_Yellow'', ''Object_Green'', ''Object_Blue'', ''Food_Green''],
      [''Food_Red'', ''Food_Yellow'', ''Food_Blue'', ''Animal_Red'', ''Animal_Yellow'', ''Object_Red'']]"

definition full_dec_set_5 :: "string list list" where
  "full_dec_set_5 =
     [[''Scene'', ''Red'', ''Food'', ''Blue'', ''Animal'', ''Yellow''],
      [''Red'', ''Scene'', ''Food'', ''Yellow'', ''Object'', ''Green''],
      [''Blue'', ''Green'', ''Animal'', ''Yellow'', ''Food'', ''Object''],
      [''Animal'', ''Object'', ''Blue'', ''Scene'', ''Green'', ''Red''],
      [''Green'', ''Red'', ''Yellow'', ''Animal'', ''Object'', ''Scene''],
      [''Animal'', ''Red'', ''Food'', ''Scene'', ''Green'', ''Blue''],
      [''Food'', ''Blue'', ''Green'', ''Object'', ''Scene'', ''Yellow''],
      [''Animal'', ''Food'', ''Blue'', ''Object'', ''Red'', ''Yellow'']]"

text \<open>
  \<^verbatim>\<open>get_items_for_games()\<close> draws \<^verbatim>\<open>random.randint(1, 5)\<close> and returns the
  pair of that configuration. The \<^verbatim>\<open>if\<close>/\<^verbatim>\<open>elif\<close> chain has no
  \<^verbatim>\<open>else\<close>: for any other value the \<^verbatim>\<open>return\<close> would read an unbound
  local.
\<close>

definition get_items_for_games ::
    "entropy \<Rightarrow> nat \<Rightarrow> (error + string list list \<times> string list list) \<times> nat" where
  "get_items_for_games raw pos =
     (let curr_stims = randint 1 5 (raw pos)
      in (if curr_stims = 1 then Inr (full_item_set_1, full_dec_set_1)
          else if curr_stims = 2 then Inr (full_item_set_2, full_dec_set_2)
          else if curr_stims = 3 then Inr (full_item_set_3, full_dec_set_3)
          else if curr_stims = 4 then Inr (full_item_set_4, full_dec_set_4)
          else if curr_stims = 5 then Inr (full_item_set_5, full_dec_set_5)
          else Inl UnboundLocalError,
          Suc pos))"

text \<open>\<^verbatim>\<open>str.split(sep)\<close> for a one-character separator.\<close>

fun split_on :: "char \<Rightarrow> string \<Rightarrow> string list" where
  "split_on sep [] = [[]]"
| "split_on sep (c # cs) =
     (if c = sep then [] # split_on sep cs
      else (case split_on sep cs of w # ws \<Rightarrow> (c # w) # ws | [] \<Rightarrow> [[c]]))"

section \<open>Game Assembler\<close>

record game =
  Pairs :: "string list"
  "Values" :: "int list"
  Options :: "string list"
  Multiplier :: "string list"

text \<open>\<^verbatim>\<open>str(n)\<close> for an integer: its decimal digits, with a sign.\<close>

fun str_nat :: "nat \<Rightarrow> string" where
  "str_nat n =
     (if n < 10 then [''0123456789'' ! n]
      else str_nat (n div 10) @ [''0123456789'' ! (n mod 10)])"

declare str_nat.simps [simp del]

definition str :: "int \<Rightarrow> string" where
  "str i = (if i < 0 then CHR ''-'' # str_nat (nat (- i)) else str_nat (nat i))"

text \<open>\<^verbatim>\<open>create_game\<close>: a dictionary with the one key \<^verbatim>\<open>str(game_number)\<close>.\<close>

definition create_game ::
    "int \<Rightarrow> string list \<Rightarrow> int list \<Rightarrow> string list \<Rightarrow> string list \<Rightarrow> (string \<rightharpoonup> game)" where
  "create_game game_number items_set values_set option_set multiplier =
     [str game_number \<mapsto>
        \<lparr>Pairs = items_set, Values = values_set, Options = option_set,
         Multiplier = multiplier\<rparr>]"

definition multiplier_list_initial :: "string list list" where
  "multiplier_list_initial =
     [[''Category''], [''Category''], [''Color''], [''Color''],
      [''Category''], [''Category''], [''Color''], [''Color'']]"

definition multiplier_time_initial :: "string list list" where
  "multiplier_time_initial =
     [[''Before'', ''After'', ''Before'', ''After'', ''Before'', ''After'', ''Before'', ''After''],
      [''After'', ''Before'', ''After'', ''Before'', ''After'', ''Before'', ''After'', ''Before'']]"

text \<open>
  The loop \<^verbatim>\<open>for i in range(1, n_games + 1)\<close> of \<^verbatim>\<open>initialize_games\<close>. The
  state is the multiplier list (its entry \<open>i - 1\<close> is extended in place), the games
  made so far and the position in the entropy source. An index past the end of a list
  raises \<^verbatim>\<open>IndexError\<close>; \<open>None\<close> is a value set generation that does not return.
\<close>

fun games_loop ::
    "nat list \<Rightarrow> string list list \<times> string list list \<Rightarrow> string list \<Rightarrow> entropy
       \<Rightarrow> string list list \<times> (string \<rightharpoonup> game) list \<times> nat
       \<Rightarrow> (error + string list list \<times> (string \<rightharpoonup> game) list \<times> nat) option" where
  "games_loop [] full_item_set multiplier_time raw st = Some (Inr st)"
| "games_loop (i # rest) full_item_set multiplier_time raw (multiplier_list, games_array, pos) =
     (if i - 1 \<ge> length multiplier_list \<or> i - 1 \<ge> length multiplier_time
      then Some (Inl IndexError)
      else
        (let curr_mult_list = multiplier_list ! (i - 1) @ [multiplier_time ! (i - 1)];
             multiplier_list' = multiplier_list[i - 1 := curr_mult_list]
         in if i - 1 \<ge> length (snd full_item_set) \<or> i - 1 \<ge> length (fst full_item_set)
            then Some (Inl IndexError)
            else
              (let option_list =
                     (if curr_mult_list ! 0 = ''Category''
                      then filter (\<lambda>item. item \<notin> set [''Red'', ''Yellow'', ''Blue'', ''Green''])
                             (snd full_item_set ! (i - 1))
                      else filter (\<lambda>item. item \<notin> set [''Food'', ''Animal'', ''Object'', ''Scene''])
                             (snd full_item_set ! (i - 1)))
               in case generate_values_set 6 raw pos of
                    None \<Rightarrow> None
                  | Some (values_set, pos') \<Rightarrow>
                      games_loop rest full_item_set multiplier_time raw
                        (multiplier_list',
                         games_array @
                           [create_game (int i) (fst full_item_set ! (i - 1)) values_set
                              option_list curr_mult_list],
                         pos'))))"

text \<open>
  \<^verbatim>\<open>initialize_games(n_games)\<close>. The final dictionary comprehension merges the
  one-key dictionaries in order, a later key replacing an earlier one.
\<close>

definition initialize_games ::
    "nat \<Rightarrow> entropy \<Rightarrow> nat \<Rightarrow> (error + (string \<rightharpoonup> game) \<times> nat) option" where
  "initialize_games n_games raw pos =
     (case get_items_for_games raw pos of
        (Inl e, pos1) \<Rightarrow> Some (Inl e)
      | (Inr full_item_set, pos1) \<Rightarrow>
          (let (multiplier_list, pos2) = shuffle multiplier_list_initial raw pos1;
               (multiplier_time_shuffled, pos3) = shuffle multiplier_time_initial raw pos2;
               multiplier_time = multiplier_time_shuffled ! 0
           in case games_loop [1..<n_games + 1] full_item_set multiplier_time raw
                     (multiplier_list, [], pos3) of
                None \<Rightarrow> None
              | Some (Inl e) \<Rightarrow> Some (Inl e)
              | Some (Inr (multiplier_list', games_array, pos4)) \<Rightarrow>
                  Some (Inr (fold (\<lambda>d games_object. games_object ++ d) games_array Map.empty,
                             pos4))))"

section \<open>Trial Orchestrator\<close>

text \<open>
  A result row. The feature rows have no \<^verbatim>\<open>n_memories\<close> key, and their
  \<^verbatim>\<open>rt\<close> is the integer 2.
\<close>

record result_row =
  model :: string
  feature :: string
  choice :: int
  rt :: real
  n_memories :: "nat option"
  true_value :: int
  recalled_value :: real
  game_number :: int

text \<open>
  The inner loop \<^verbatim>\<open>for feat in [feat_type, feat_color]\<close> that accumulates the true
  values of the features in the decision set.
\<close>

fun true_values_update ::
    "(string \<rightharpoonup> int) \<Rightarrow> string list \<Rightarrow> string list \<Rightarrow> int \<Rightarrow> (string \<rightharpoonup> int)" where
  "true_values_update true_values [] options r = true_values"
| "true_values_update true_values (feat # feats) options r =
     true_values_update
       (if feat \<in> set options
        then (let true_values' = (if true_values feat = None then true_values(feat \<mapsto> 0)
                                  else true_values)
              in case true_values' feat of
                   Some x \<Rightarrow> true_values'(feat \<mapsto> x + r)
                 | None \<Rightarrow> true_values')
        else true_values)
       feats options r"

text \<open>
  The loop \<^verbatim>\<open>for i in range(len(pairs))\<close>: \<^verbatim>\<open>values[i]\<close> raises
  \<^verbatim>\<open>IndexError\<close> past the end, and unpacking \<^verbatim>\<open>item.split('_')\<close> into two
  names raises \<^verbatim>\<open>ValueError\<close> unless there are exactly two parts.
\<close>

fun pairs_loop ::
    "nat list \<Rightarrow> string list \<Rightarrow> int list \<Rightarrow> string list
       \<Rightarrow> (string \<rightharpoonup> int) \<times> ((string \<times> string) \<times> int) list
       \<Rightarrow> error + (string \<rightharpoonup> int) \<times> ((string \<times> string) \<times> int) list" where
  "pairs_loop [] pairs vals options st = Inr st"
| "pairs_loop (i # rest) pairs vals options (true_values, eps) =
     (if i \<ge> length pairs \<or> i \<ge> length vals then Inl IndexError
      else
        (let item = pairs ! i; r = vals ! i
         in case split_on CHR ''_'' item of
              [feat_type, feat_color] \<Rightarrow>
                pairs_loop rest pairs vals options
                  (true_values_update true_values [feat_type, feat_color] options r,
                   eps @ [((feat_type, feat_color), r)])
            | _ \<Rightarrow> Inl ValueError))"

text \<open>The loop that encodes every episode into both models.\<close>

fun encode_both ::
    "((string \<times> string) \<times> int) list \<Rightarrow> EpisodicModel \<times> FeatureBasedModel
       \<Rightarrow> EpisodicModel \<times> FeatureBasedModel" where
  "encode_both [] st = st"
| "encode_both ((features, r) # rest) (episodic, feature_based) =
     encode_both rest
       (EpisodicModel_encode episodic features (real_of_int r),
        FeatureBasedModel_encode feature_based features (real_of_int r))"

text \<open>
  The loop \<^verbatim>\<open>for feature in options\<close>: one decision of each model and one row for
  each. \<^verbatim>\<open>true_values[feature]\<close> raises \<^verbatim>\<open>KeyError\<close> for a feature that no
  item of the game has.
\<close>

fun decisions_loop ::
    "string list \<Rightarrow> EpisodicModel \<Rightarrow> FeatureBasedModel \<Rightarrow> (string \<rightharpoonup> int) \<Rightarrow> int \<Rightarrow> np_entropy
       \<Rightarrow> result_row list \<times> result_row list \<times> nat
       \<Rightarrow> error + result_row list \<times> result_row list \<times> nat" where
  "decisions_loop [] episodic feature_based true_values game_no np st = Inr st"
| "decisions_loop (feat # rest) episodic feature_based true_values game_no np
       (episodic_results, feature_results, pos) =
     (case EpisodicModel_decide episodic (feat, '''') np pos of
        Inl e \<Rightarrow> Inl e
      | Inr ((c, t, n_recalled, v), pos1) \<Rightarrow>
          (case true_values feat of
             None \<Rightarrow> Inl KeyError
           | Some tv \<Rightarrow>
               (let episodic_results' = episodic_results @
                      [\<lparr>model = ''episodic'', feature = feat, choice = c, rt = t,
                        n_memories = Some n_recalled, true_value = tv, recalled_value = v,
                        game_number = game_no\<rparr>];
                    ((c2, t2), pos2) = FeatureBasedModel_decide feature_based (feat, '''') np pos1;
                    feature_results' = feature_results @
                      [\<lparr>model = ''feature'', feature = feat, choice = c2, rt = real_of_int t2,
                        n_memories = None, true_value = tv, recalled_value = v,
                        game_number = game_no\<rparr>]
                in decisions_loop rest episodic feature_based true_values game_no np
                     (episodic_results', feature_results', pos2))))"

text \<open>
  One pass of the loop \<^verbatim>\<open>for _ in range(n_trials)\<close>. The state holds the two
  models, the rows so far, and the positions in the two entropy sources.
\<close>

type_synonym trial_state =
  "EpisodicModel \<times> FeatureBasedModel \<times> result_row list \<times> result_row list \<times> nat \<times> nat"

definition run_trial :: "entropy \<Rightarrow> np_entropy \<Rightarrow> trial_state \<Rightarrow> (error + trial_state) option" where
  "run_trial raw np st =
     (case st of (episodic, feature_based, episodic_results, feature_results, pos, np_pos) \<Rightarrow>
        (case initialize_games 8 raw pos of
           None \<Rightarrow> None
         | Some (Inl e) \<Rightarrow> Some (Inl e)
         | Some (Inr (games, pos1)) \<Rightarrow>
             (let game_no = randint 1 8 (raw pos1); pos2 = Suc pos1
              in case games (str game_no) of
                   None \<Rightarrow> Some (Inl KeyError)
                 | Some g \<Rightarrow>
                     (let pairs = Pairs g; vals = Values g; options = Options g
                      in case pairs_loop [0..<length pairs] pairs vals options (Map.empty, []) of
                           Inl e \<Rightarrow> Some (Inl e)
                         | Inr (true_values, eps) \<Rightarrow>
                             (let (episodic', feature_based') =
                                    encode_both eps
                                      (episodic\<lparr>episodes := []\<rparr>,
                                       feature_based\<lparr>feature_values := Map.empty\<rparr>)
                              in case decisions_loop options episodic' feature_based' true_values
                                        game_no np (episodic_results, feature_results, np_pos) of
                                   Inl e \<Rightarrow> Some (Inl e)
                                 | Inr (episodic_results', feature_results', np_pos') \<Rightarrow>
                                     Some (Inr (episodic', feature_based', episodic_results',
                                                feature_results', pos2, np_pos')))))))"

fun trials_loop :: "nat \<Rightarrow> entropy \<Rightarrow> np_entropy \<Rightarrow> trial_state \<Rightarrow> (error + trial_state) option" where
  "trials_loop 0 raw np st = Some (Inr st)"
| "trials_loop (Suc k) raw np st =
     (case run_trial raw np st of
        None \<Rightarrow> None
      | Some (Inl e) \<Rightarrow> Some (Inl e)
      | Some (Inr st') \<Rightarrow> trials_loop k raw np st')"

text \<open>
  \<^verbatim>\<open>simulate_trials(n_trials)\<close>: the two models as configured, no rows, both
  entropy sources at their start; the result is the two tables of rows.
\<close>

definition simulate_trials ::
    "nat \<Rightarrow> entropy \<Rightarrow> np_entropy \<Rightarrow> (error + result_row list \<times> result_row list) option" where
  "simulate_trials n_trials raw np =
     (let episodic = \<lparr>non_decision_time = 3 / 2, recall_time = 1 / 2, recall_noise = 1 / 2,
                      p_stop = 1 / 10, max_decision_time = 15 / 2, episodes = []\<rparr>;
          feature_based = \<lparr>beta = 5, feature_values = Map.empty\<rparr>
      in case trials_loop n_trials raw np (episodic, feature_based, [], [], 0, 0) of
           None \<Rightarrow> None
         | Some (Inl e) \<Rightarrow> Some (Inl e)
         | Some (Inr (episodic', feature_based', episodic_results, feature_results, pos, np_pos)) \<Rightarrow>
             Some (Inr (episodic_results, feature_results)))"

text \<open>
  The value of a feature recomputed from a game alone: the sum of the values of the items
  of which the feature is the type or the colour.
\<close>

definition recomputed_value :: "string \<Rightarrow> string list \<Rightarrow> int list \<Rightarrow> int" where
  "recomputed_value feat pairs vals =
     sum_list (map snd (filter (\<lambda>(item, v). feat \<in> set (split_on CHR ''_'' item)) (zip pairs vals)))"

text \<open>
  What the later stages rely on in a row of the catalog: six items, each a type and a
  different colour joined by an underscore; three of the six decision words are category
  words and three are colour words; and every decision word is the type or the colour of
  some item of the row.
\<close>

definition row_ok :: "string list \<Rightarrow> string list \<Rightarrow> bool" where
  "row_ok items dec \<longleftrightarrow>
     length items = 6
     \<and> list_all (\<lambda>item. case split_on CHR ''_'' item of [a, b] \<Rightarrow> a \<noteq> b | _ \<Rightarrow> False) items
     \<and> length (filter (\<lambda>item. item \<notin> set [''Red'', ''Yellow'', ''Blue'', ''Green'']) dec) = 3
     \<and> length (filter (\<lambda>item. item \<notin> set [''Food'', ''Animal'', ''Object'', ''Scene'']) dec) = 3
     \<and> list_all (\<lambda>opt. list_ex (\<lambda>item. opt \<in> set (split_on CHR ''_'' item)) items) dec"

text \<open>
  The parameters that \<^verbatim>\<open>simulate_trials\<close> gives the episodic model. An episodic row
  and a feature row that come from one pass of the decision loop: same feature and game,
  and the recalled value of both is the summed value that \<^verbatim>\<open>EpisodicModel.decide\<close>
  returned for that feature, on a model with these parameters.
\<close>

definition configured :: "EpisodicModel \<Rightarrow> bool" where
  "configured m \<longleftrightarrow>
     non_decision_time m = 3 / 2 \<and> recall_time m = 1 / 2 \<and> recall_noise m = 1 / 2
     \<and> p_stop m = 1 / 10 \<and> max_decision_time m = 15 / 2"

definition same_recall :: "np_entropy \<Rightarrow> result_row \<Rightarrow> result_row \<Rightarrow> bool" where
  "same_recall np er fr \<longleftrightarrow>
     model er = ''episodic'' \<and> model fr = ''feature''
     \<and> feature fr = feature er \<and> game_number fr = game_number er
     \<and> n_memories fr = None \<and> rt fr = 2
     \<and> (\<exists>m pos c t k v pos'.
           configured m
           \<and> EpisodicModel_decide m (feature er, '''') np pos = Inr ((c, t, k, v), pos')
           \<and> recalled_value er = v \<and> recalled_value fr = v)"

text \<open>
  The five configurations of the catalog; the option list that \<^verbatim>\<open>initialize_games\<close>
  selects for a multiplier axis; and what the loop makes for game \<open>i\<close>: a one-key
  dictionary whose game has the item set and the filtered option set of row \<open>i - 1\<close>, a
  value set that \<^verbatim>\<open>generate_values_set(6)\<close> returned, and a multiplier that starts
  with the axis.
\<close>

definition catalog :: "(string list list \<times> string list list) list" where
  "catalog =
     [(full_item_set_1, full_dec_set_1), (full_item_set_2, full_dec_set_2),
      (full_item_set_3, full_dec_set_3), (full_item_set_4, full_dec_set_4),
      (full_item_set_5, full_dec_set_5)]"

definition options_for :: "string \<Rightarrow> string list \<Rightarrow> string list" where
  "options_for axis dec =
     (if axis = ''Category''
      then filter (\<lambda>item. item \<notin> set [''Red'', ''Yellow'', ''Blue'', ''Green'']) dec
      else filter (\<lambda>item. item \<notin> set [''Food'', ''Animal'', ''Object'', ''Scene'']) dec)"

definition made_game ::
    "string list list \<times> string list list \<Rightarrow> entropy \<Rightarrow> nat \<Rightarrow> (string \<rightharpoonup> game) \<Rightarrow> bool" where
  "made_game fis raw i d \<longleftrightarrow>
     (\<exists>vs axis time p p'.
        d = create_game (int i) (fst fis ! (i - 1)) vs (options_for axis (snd fis ! (i - 1)))
              [axis, time]
        \<and> (axis = ''Category'' \<or> axis = ''Color'')
        \<and> generate_values_set 6 raw p = Some (vs, p'))"

text \<open>
  A game of the catalog: item set and option set of one row of one configuration, the
  option set filtered for the game's multiplier axis, with a value set that
  \<^verbatim>\<open>generate_values_set(6)\<close> returned.
\<close>

definition catalog_game :: "entropy \<Rightarrow> game \<Rightarrow> bool" where
  "catalog_game raw g \<longleftrightarrow>
     (\<exists>fis \<in> set catalog. \<exists>j < 8. \<exists>axis time vs p p'.
        g = \<lparr>Pairs = fst fis ! j, Values = vs, Options = options_for axis (snd fis ! j),
             Multiplier = [axis, time]\<rparr>
        \<and> (axis = ''Category'' \<or> axis = ''Color'')
        \<and> generate_values_set 6 raw p = Some (vs, p'))"

text \<open>
  An entropy source for a whole trial: the nine raw values that \<^verbatim>\<open>initialize_games\<close>
  reads before the first value set are 0, and from position 9 on the source repeats the
  raw values of an accepted value set. And two readings of a result: the length of the
  option list of the game under a key, and the numbers of rows of the two tables.
\<close>

definition witness_raw :: entropy where
  "witness_raw = accept_from (\<lambda>i. 0) 9"

definition options_length ::
    "(error + (string \<rightharpoonup> game) \<times> nat) option \<Rightarrow> string \<Rightarrow> nat option" where
  "options_length r k =
     (case r of
        Some (Inr (games, pos)) \<Rightarrow> map_option (\<lambda>g. length (Options g)) (games k)
      | _ \<Rightarrow> None)"

definition row_counts :: "(error + result_row list \<times> result_row list) option \<Rightarrow> (nat \<times> nat) option" where
  "row_counts r =
     (case r of
        Some (Inr (episodic_results, feature_results)) \<Rightarrow>
          Some (length episodic_results, length feature_results)
      | _ \<Rightarrow> None)"

section \<open>Properties of the Value Set Generator\<close>

lemma randint_m2_2: "randint (- 2) 2 r \<in> {- 2, - 1, 0, 1, 2}"
proof -
  have "r mod 5 < 5" by simp
  then have "r mod 5 \<in> {0,1,2,3,4}" by auto
  then show ?thesis unfolding randint_def randbelow_def by auto
qed

lemma draw_nonzero_range_aux:
  assumes ret: "draw_nonzero raw pos = Some r"
  shows "fst r \<in> {- 2, - 1, 1, 2} \<and> pos < snd r"
proof (rule draw_nonzero.raw_induct [where P = "\<lambda>raw pos r. fst r \<in> {- 2, - 1, 1, 2} \<and> pos < snd r", OF _ ret])
  fix f raw pos r
  assume IH: "\<And>raw pos r. f raw pos = Some r \<Longrightarrow> fst r \<in> {- 2, - 1, 1, 2} \<and> pos < snd r"
    and eq: "(let random_value = randint (- 2) 2 (raw pos)
              in if random_value \<noteq> 0 then Some (random_value, Suc pos) else f raw (Suc pos)) = Some r"
  show "fst r \<in> {- 2, - 1, 1, 2} \<and> pos < snd r"
  proof (cases "randint (- 2) 2 (raw pos) = 0")
    case True
    with eq have "f raw (Suc pos) = Some r" by simp
    from IH [OF this] show ?thesis by auto
  next
    case False
    with eq have "r = (randint (- 2) 2 (raw pos), Suc pos)" by (simp add: Let_def)
    with False randint_m2_2 [of "raw pos"] show ?thesis by auto
  qed
qed

lemma draw_nonzero_range:
  "draw_nonzero raw pos = Some (v, p) \<Longrightarrow> v \<in> {- 2, - 1, 1, 2} \<and> pos < p"
  using draw_nonzero_range_aux [of raw pos "(v, p)"] by simp

lemma sub_array_loop_result:
  "sub_array_loop k acc raw pos = Some (vs, p) \<Longrightarrow>
     length vs = length acc + k \<and> set vs \<subseteq> set acc \<union> {- 2, - 1, 1, 2}"
proof (induction k arbitrary: acc pos)
  case 0
  then show ?case by auto
next
  case (Suc k)
  from Suc.prems obtain v q where d: "draw_nonzero raw pos = Some (v, q)"
    and r: "sub_array_loop k (acc @ [v]) raw q = Some (vs, p)"
    by (auto split: option.splits)
  from draw_nonzero_range [OF d] have "v \<in> {- 2, - 1, 1, 2}" by simp
  with Suc.IH [OF r] show ?case by auto
qed

lemma generate_values_set_accepts_aux:
  assumes ret: "generate_values_set n raw pos = Some r"
  shows "(\<exists>q. generate_random_sub_array n raw q = Some r) \<and> is_valid_values_set (fst r) n"
proof (rule generate_values_set.raw_induct
    [where P = "\<lambda>n raw pos r. (\<exists>q. generate_random_sub_array n raw q = Some r)
                  \<and> is_valid_values_set (fst r) n", OF _ ret])
  fix f n raw pos r
  assume IH: "\<And>n raw pos r. f n raw pos = Some r \<Longrightarrow>
        (\<exists>q. generate_random_sub_array n raw q = Some r) \<and> is_valid_values_set (fst r) n"
    and eq: "(case generate_random_sub_array n raw pos of None \<Rightarrow> None
          | Some (values_set, pos') \<Rightarrow>
              if is_valid_values_set values_set n then Some (values_set, pos')
              else f n raw pos') = Some r"
  from eq obtain ws q where g: "generate_random_sub_array n raw pos = Some (ws, q)"
    by (cases "generate_random_sub_array n raw pos") auto
  show "(\<exists>q. generate_random_sub_array n raw q = Some r) \<and> is_valid_values_set (fst r) n"
  proof (cases "is_valid_values_set ws n")
    case True
    with eq g have "r = (ws, q)" by simp
    with g True show ?thesis by auto
  next
    case False
    with eq g have "f n raw q = Some r" by simp
    from IH [OF this] show ?thesis .
  qed
qed

lemma generate_values_set_accepts:
  "generate_values_set n raw pos = Some (vs, p) \<Longrightarrow>
     (\<exists>q. generate_random_sub_array n raw q = Some (vs, p)) \<and> is_valid_values_set vs n"
  using generate_values_set_accepts_aux [of n raw pos "(vs, p)"] by simp

lemma length_six:
  "length vs = 6 \<Longrightarrow> \<exists>a b c d e f. vs = [a, b, c, d, e, f]"
  by (auto simp: numeral_eq_Suc length_Suc_conv)

lemma sign_counts_le_length:
  "length (filter (\<lambda>v. v > 0) (vs :: int list)) + length (filter (\<lambda>v. v < 0) vs) \<le> length vs"
  by (induction vs) auto

lemma is_valid_values_set_index_ok:
  assumes "\<not> (real (length (filter (\<lambda>v. v > 0) (vs :: int list))) < real 6 / 2
             \<or> real (length (filter (\<lambda>v. v < 0) vs)) < real 6 / 2)"
  shows "5 < length vs"
  using assms sign_counts_le_length [of vs] by simp

lemma is_valid_values_set_counts:
  assumes "is_valid_values_set vs 6" and "length vs = 6"
  shows "length (filter (\<lambda>v. v > 0) vs) = 3 \<and> length (filter (\<lambda>v. v < 0) vs) = 3"
proof -
  from assms(1) have "3 \<le> length (filter (\<lambda>v. v > 0) vs)" "3 \<le> length (filter (\<lambda>v. v < 0) vs)"
    by (auto simp: is_valid_values_set_def Let_def split: if_splits)
  with sign_counts_le_length [of vs] assms(2) show ?thesis by linarith
qed

lemma is_valid_values_set_sums:
  assumes "is_valid_values_set vs 6" and "length vs = 6"
  shows "(\<exists>s \<in> set (six_partial_sums vs). s < 0) \<and> (\<exists>s \<in> set (six_partial_sums vs). s > 0)
           \<and> 0 \<notin> set (six_partial_sums vs)"
proof -
  from length_six [OF assms(2)] obtain a b c d e f where vs: "vs = [a, b, c, d, e, f]" by blast
  from assms(1) have
    "a + b + c < 0 \<or> d + e < 0 \<or> f < 0 \<or> a + d + f < 0 \<or> b + e < 0 \<or> c < 0"
    "a + b + c > 0 \<or> d + e > 0 \<or> f > 0 \<or> a + d + f > 0 \<or> b + e > 0 \<or> c > 0"
    "a + b + c \<noteq> 0 \<and> d + e \<noteq> 0 \<and> f \<noteq> 0 \<and> a + d + f \<noteq> 0 \<and> b + e \<noteq> 0 \<and> c \<noteq> 0"
    unfolding vs is_valid_values_set_def Let_def by (simp_all add: ac_simps split: if_splits)
  then show ?thesis unfolding vs six_partial_sums_def by simp
qed

lemma draw_nonzero_hit:
  "randint (- 2) 2 (raw pos) \<noteq> 0 \<Longrightarrow>
     draw_nonzero raw pos = Some (randint (- 2) 2 (raw pos), Suc pos)"
  by (subst draw_nonzero.simps) (simp add: Let_def)

lemma draw_nonzero_miss:
  "randint (- 2) 2 (raw pos) = 0 \<Longrightarrow> draw_nonzero raw pos = draw_nonzero raw (Suc pos)"
  by (subst draw_nonzero.simps) (simp add: Let_def)

lemma generate_values_set_accept:
  "generate_random_sub_array n raw pos = Some (vs, p) \<Longrightarrow> is_valid_values_set vs n \<Longrightarrow>
     generate_values_set n raw pos = Some (vs, p)"
  by (subst generate_values_set.simps) simp

lemma generate_values_set_reject:
  "generate_random_sub_array n raw pos = Some (vs, p) \<Longrightarrow> \<not> is_valid_values_set vs n \<Longrightarrow>
     generate_values_set n raw pos = generate_values_set n raw p"
  by (subst generate_values_set.simps) simp

lemma randint_m2_2_values:
  "randint (- 2) 2 0 = - 2" "randint (- 2) 2 1 = - 1" "randint (- 2) 2 2 = 0"
  "randint (- 2) 2 3 = 1" "randint (- 2) 2 4 = 2" "randint (- 2) 2 (Suc 0) = - 1"
  by (simp_all add: randint_def randbelow_def)

lemma sub_array_loop_six:
  "sub_array_loop 6 acc raw pos = sub_array_loop (Suc (Suc (Suc (Suc (Suc (Suc 0)))))) acc raw pos"
  by (simp add: numeral_eq_Suc)

lemma sub_array_loop_all_hits:
  "(\<And>i. i < k \<Longrightarrow> randint (- 2) 2 (raw (pos + i)) \<noteq> 0) \<Longrightarrow>
     sub_array_loop k acc raw pos
       = Some (acc @ map (\<lambda>i. randint (- 2) 2 (raw (pos + i))) [0..<k], pos + k)"
proof (induction k arbitrary: acc pos)
  case 0
  then show ?case by simp
next
  case (Suc k)
  from Suc.prems [of 0] have h: "randint (- 2) 2 (raw pos) \<noteq> 0" by simp
  have "\<And>i. i < k \<Longrightarrow> randint (- 2) 2 (raw (Suc pos + i)) \<noteq> 0"
    using Suc.prems [of "Suc _"] by simp
  from Suc.IH [OF this, of "acc @ [randint (- 2) 2 (raw pos)]"]
  have "sub_array_loop k (acc @ [randint (- 2) 2 (raw pos)]) raw (Suc pos)
      = Some (acc @ randint (- 2) 2 (raw pos) # map (\<lambda>i. randint (- 2) 2 (raw (Suc pos + i))) [0..<k],
              Suc pos + k)"
    by simp
  moreover have "map (\<lambda>i. randint (- 2) 2 (raw (pos + i))) [0..<Suc k]
      = randint (- 2) 2 (raw pos) # map (\<lambda>i. randint (- 2) 2 (raw (Suc pos + i))) [0..<k]"
    by (simp add: upt_conv_Cons map_Suc_upt [symmetric] del: upt_Suc)
  ultimately show ?case using h by (simp add: draw_nonzero_hit del: upt_Suc)
qed

lemma upt_six: "[0..<6] = [0, 1, 2, 3, 4, 5]"
  by (simp add: upt_conv_Cons)

lemma is_valid_ones: "\<not> is_valid_values_set [1, 1, 1, 1, 1, 1] 6"
  by (simp add: is_valid_values_set_def)

lemma is_valid_accepted: "is_valid_values_set [2, 1, - 1, - 1, - 2, 1] 6"
  by (simp add: is_valid_values_set_def)

lemma accept_from_block:
  "generate_random_sub_array 6 (accept_from raw pos) pos = Some ([2, 1, - 1, - 1, - 2, 1], pos + 6)"
proof -
  have v: "map (\<lambda>i. randint (- 2) 2 (accept_from raw pos (pos + i))) [0..<6] = [2, 1, - 1, - 1, - 2, 1]"
    by (simp add: upt_six accept_from_def randint_m2_2_values)
  have "\<And>i. i < 6 \<Longrightarrow> randint (- 2) 2 (accept_from raw pos (pos + i)) \<noteq> 0"
  proof -
    fix i :: nat assume "i < 6"
    then have "i \<in> {0, 1, 2, 3, 4, 5}" by auto
    then show "randint (- 2) 2 (accept_from raw pos (pos + i)) \<noteq> 0"
      by (auto simp: accept_from_def randint_m2_2_values)
  qed
  from sub_array_loop_all_hits [of 6 "accept_from raw pos" pos "[]", OF this] v
  show ?thesis by (simp add: generate_random_sub_array_def)
qed

lemma ones_block:
  assumes "6 * j + 6 \<le> pos"
  shows "generate_random_sub_array 6 (accept_from (\<lambda>_. 3) pos) (6 * j) = Some ([1, 1, 1, 1, 1, 1], 6 * j + 6)"
proof -
  have r: "\<And>i. i < 6 \<Longrightarrow> randint (- 2) 2 (accept_from (\<lambda>_. 3) pos (6 * j + i)) = 1"
    using assms by (simp add: accept_from_def randint_m2_2_values)
  have "map (\<lambda>i. randint (- 2) 2 (accept_from (\<lambda>_. 3) pos (6 * j + i))) [0..<6] = map (\<lambda>i. 1) [0..<6]"
    by (rule map_cong [OF refl]) (simp add: r)
  then have v: "map (\<lambda>i. randint (- 2) 2 (accept_from (\<lambda>_. 3) pos (6 * j + i))) [0..<6] = [1, 1, 1, 1, 1, 1]"
    by (simp add: upt_six)
  have "\<And>i. i < 6 \<Longrightarrow> randint (- 2) 2 (accept_from (\<lambda>_. 3) pos (6 * j + i)) \<noteq> 0"
    using r by simp
  from sub_array_loop_all_hits [of 6 "accept_from (\<lambda>_. 3) pos" "6 * j" "[]", OF this] v
  show ?thesis by (simp add: generate_random_sub_array_def)
qed

lemma generate_values_set_accept_from:
  "generate_values_set 6 (accept_from raw pos) pos = Some ([2, 1, - 1, - 1, - 2, 1], pos + 6)"
  by (rule generate_values_set_accept [OF accept_from_block is_valid_accepted])

lemma generate_values_set_after_retries:
  "j \<le> k \<Longrightarrow> generate_values_set 6 (accept_from (\<lambda>_. 3) (6 * k)) (6 * (k - j))
      = Some ([2, 1, - 1, - 1, - 2, 1], 6 * k + 6)"
proof (induction j)
  case 0
  then show ?case using generate_values_set_accept_from [of "\<lambda>_. 3" "6 * k"] by simp
next
  case (Suc j)
  then have le: "6 * (k - Suc j) + 6 \<le> 6 * k" and eq: "6 * (k - Suc j) + 6 = 6 * (k - j)" by simp_all
  from generate_values_set_reject [OF ones_block [OF le] is_valid_ones] Suc eq
  show ?case by simp
qed

lemma example_run:
  "generate_values_set 6 example_entropy 0 = Some ([2, 1, - 1, - 1, - 2, 1], 13)"
proof -
  have c1: "generate_random_sub_array 6 example_entropy 0 = Some ([1, 1, 1, 1, 1, 1], 7)"
    unfolding generate_random_sub_array_def sub_array_loop_six
    by (simp add: draw_nonzero_hit draw_nonzero_miss example_entropy_def randint_m2_2_values)
  have c2: "generate_random_sub_array 6 example_entropy 7 = Some ([2, 1, - 1, - 1, - 2, 1], 13)"
    unfolding generate_random_sub_array_def sub_array_loop_six
    by (simp add: draw_nonzero_hit draw_nonzero_miss example_entropy_def randint_m2_2_values)
  show ?thesis
    by (simp add: generate_values_set_reject [OF c1 is_valid_ones]
        generate_values_set_accept [OF c2 is_valid_accepted])
qed

text \<open>
  C1. Every value set that \<^verbatim>\<open>generate_values_set(6)\<close> returns has six entries,
  exactly three of them positive and exactly three negative, every entry is one of
  -2, -1, 1, 2 (never 0), at least one of the six partial sums is strictly negative, at
  least one is strictly positive, and none of the six is zero.
\<close>

theorem generate_values_set_conforms:
  assumes "generate_values_set 6 raw pos = Some (vs, pos')"
  shows "length vs = 6
       \<and> length (filter (\<lambda>v. v > 0) vs) = 3 \<and> length (filter (\<lambda>v. v < 0) vs) = 3
       \<and> set vs \<subseteq> {- 2, - 1, 1, 2}
       \<and> (\<exists>s \<in> set (six_partial_sums vs). s < 0)
       \<and> (\<exists>s \<in> set (six_partial_sums vs). s > 0)
       \<and> 0 \<notin> set (six_partial_sums vs)"
proof -
  from generate_values_set_accepts [OF assms] obtain q
    where g: "generate_random_sub_array 6 raw q = Some (vs, pos')" and v: "is_valid_values_set vs 6"
    by blast
  from g have len: "length vs = 6" and rng: "set vs \<subseteq> {- 2, - 1, 1, 2}"
    using sub_array_loop_result [of 6 "[]" raw q vs pos']
    by (simp_all add: generate_random_sub_array_def)
  from is_valid_values_set_counts [OF v len] is_valid_values_set_sums [OF v len] len rng
  show ?thesis by blast
qed

theorem generate_values_set_conforms_witness:
  "generate_values_set 6 example_entropy 0 = Some ([2, 1, - 1, - 1, - 2, 1], 13)
   \<and> length (filter (\<lambda>v. v > 0) [2, 1, - 1, - 1, - 2, 1 :: int]) = 3
   \<and> length (filter (\<lambda>v. v < 0) [2, 1, - 1, - 1, - 2, 1 :: int]) = 3
   \<and> 0 \<notin> set (six_partial_sums [2, 1, - 1, - 1, - 2, 1])"
  using example_run generate_values_set_conforms [OF example_run] by simp

text \<open>
  C9. The acceptance test of the rejection-sampling loop is satisfiable: some array of six
  values from -2, -1, 1, 2 passes \<^verbatim>\<open>is_valid_values_set\<close>. Hence the loop can
  return: whatever was drawn before position \<open>pos\<close>, some continuation of the
  entropy source makes the run from \<open>pos\<close> return a conforming set. And the loop
  has no retry limit: for every \<open>k\<close> there is a source on which it discards \<open>k\<close>
  candidates in a row and then returns a conforming set.
\<close>

theorem rejection_sampling_can_always_accept:
  "(\<exists>vs. length vs = 6 \<and> set vs \<subseteq> {- 2, - 1, 1, 2} \<and> is_valid_values_set vs 6)
   \<and> (\<forall>raw pos. \<exists>raw' vs p. (\<forall>i < pos. raw' i = raw i)
          \<and> generate_values_set 6 raw' pos = Some (vs, p) \<and> is_valid_values_set vs 6)
   \<and> (\<forall>k. \<exists>raw vs.
          (\<forall>j < k. \<exists>ws. generate_random_sub_array 6 raw (6 * j) = Some (ws, 6 * j + 6)
                          \<and> \<not> is_valid_values_set ws 6)
          \<and> generate_values_set 6 raw 0 = Some (vs, 6 * k + 6) \<and> is_valid_values_set vs 6)"
proof (intro conjI allI)
  show "\<exists>vs. length vs = 6 \<and> set vs \<subseteq> {- 2, - 1, 1, 2} \<and> is_valid_values_set vs 6"
    using is_valid_accepted by (intro exI [of _ "[2, 1, - 1, - 1, - 2, 1]"]) simp
next
  fix raw :: entropy and pos :: nat
  have "\<forall>i < pos. accept_from raw pos i = raw i" by (simp add: accept_from_def)
  with generate_values_set_accept_from [of raw pos] is_valid_accepted
  show "\<exists>raw' vs p. (\<forall>i < pos. raw' i = raw i)
          \<and> generate_values_set 6 raw' pos = Some (vs, p) \<and> is_valid_values_set vs 6"
    by blast
next
  fix k :: nat
  let ?raw = "accept_from (\<lambda>_. 3) (6 * k)"
  have "\<forall>j < k. \<exists>ws. generate_random_sub_array 6 ?raw (6 * j) = Some (ws, 6 * j + 6)
                          \<and> \<not> is_valid_values_set ws 6"
    using ones_block [of _ "6 * k"] is_valid_ones by auto
  moreover have "generate_values_set 6 ?raw 0 = Some ([2, 1, - 1, - 1, - 2, 1], 6 * k + 6)"
    using generate_values_set_after_retries [of k k] by simp
  ultimately show "\<exists>raw vs.
          (\<forall>j < k. \<exists>ws. generate_random_sub_array 6 raw (6 * j) = Some (ws, 6 * j + 6)
                          \<and> \<not> is_valid_values_set ws 6)
          \<and> generate_values_set 6 raw 0 = Some (vs, 6 * k + 6) \<and> is_valid_values_set vs 6"
    using is_valid_accepted by blast
qed

theorem rejection_sampling_can_always_accept_witness:
  "\<exists>raw vs.
     (\<forall>j < 2. \<exists>ws. generate_random_sub_array 6 raw (6 * j) = Some (ws, 6 * j + 6)
                     \<and> \<not> is_valid_values_set ws 6)
     \<and> generate_values_set 6 raw 0 = Some (vs, 18) \<and> is_valid_values_set vs 6"
proof -
  from rejection_sampling_can_always_accept
  have "\<forall>k. \<exists>raw vs.
          (\<forall>j < k. \<exists>ws. generate_random_sub_array 6 raw (6 * j) = Some (ws, 6 * j + 6)
                          \<and> \<not> is_valid_values_set ws 6)
          \<and> generate_values_set 6 raw 0 = Some (vs, 6 * k + 6) \<and> is_valid_values_set vs 6"
    by (elim conjE)
  from this [rule_format, of 2] show ?thesis by simp
qed

section \<open>Properties of the Feature-Based Decision Model\<close>

lemma encode_step:
  "feature_values (FeatureBasedModel_encode m p r) F =
     (if occurrences F p = 0 then feature_values m F
      else Some ((case feature_values m F of None \<Rightarrow> 0 | Some v \<Rightarrow> v) + real (occurrences F p) * r))"
  by (cases p) (auto simp: FeatureBasedModel_encode_def occurrences_def split: option.splits)

lemma encode_beta: "beta (FeatureBasedModel_encode m p r) = beta m"
  by (simp add: FeatureBasedModel_encode_def)

lemma encode_all_beta: "beta (FeatureBasedModel_encode_all m eps) = beta m"
  by (induction m eps rule: FeatureBasedModel_encode_all.induct) (simp_all add: encode_beta)

lemma sum_no_occurrence:
  "\<forall>e \<in> set eps. occurrences F (fst e) = 0 \<Longrightarrow>
     (\<Sum>e\<leftarrow>eps. real (occurrences F (fst e)) * snd e) = 0"
  by (induction eps) auto

lemma encode_all_values:
  "feature_values (FeatureBasedModel_encode_all m eps) F =
     (if (\<forall>e \<in> set eps. occurrences F (fst e) = 0) then feature_values m F
      else Some ((case feature_values m F of None \<Rightarrow> 0 | Some v \<Rightarrow> v)
                 + (\<Sum>e\<leftarrow>eps. real (occurrences F (fst e)) * snd e)))"
proof (induction m eps rule: FeatureBasedModel_encode_all.induct)
  case (1 self)
  then show ?case by simp
next
  case (2 self features r rest)
  show ?case
    unfolding FeatureBasedModel_encode_all.simps "2.IH" encode_step
    by (auto simp: sum_no_occurrence split: option.splits)
qed

lemma sum_list_map_mset_cong:
  fixes g :: "'a \<Rightarrow> real"
  assumes "mset xs = mset ys"
  shows "sum_list (map g xs) = sum_list (map g ys)"
proof -
  have "sum_list (map g xs) = sum_mset (image_mset g (mset xs))"
    by (simp add: sum_mset_sum_list [symmetric])
  also have "\<dots> = sum_mset (image_mset g (mset ys))" by (simp add: assms)
  also have "\<dots> = sum_list (map g ys)" by (simp add: sum_mset_sum_list [symmetric])
  finally show ?thesis .
qed

lemma encode_all_order_independent:
  assumes "mset eps' = mset eps"
  shows "FeatureBasedModel_encode_all m eps' = FeatureBasedModel_encode_all m eps"
proof (rule FeatureBasedModel.equality)
  show "beta (FeatureBasedModel_encode_all m eps') = beta (FeatureBasedModel_encode_all m eps)"
    by (simp add: encode_all_beta)
  from assms have st: "set eps' = set eps" by (rule mset_eq_setD)
  show "feature_values (FeatureBasedModel_encode_all m eps')
      = feature_values (FeatureBasedModel_encode_all m eps)"
  proof
    fix F
    have "(\<Sum>e\<leftarrow>eps'. real (occurrences F (fst e)) * snd e)
        = (\<Sum>e\<leftarrow>eps. real (occurrences F (fst e)) * snd e)"
      by (rule sum_list_map_mset_cong [OF assms])
    then show "feature_values (FeatureBasedModel_encode_all m eps') F
        = feature_values (FeatureBasedModel_encode_all m eps) F"
      by (simp add: encode_all_values st)
  qed
qed simp

lemma weighted_sum_distinct:
  assumes "\<forall>e \<in> set eps. fst (fst e) \<noteq> snd (fst e)"
  shows "(\<Sum>e\<leftarrow>eps. real (occurrences F (fst e)) * snd e) = reward_sum F eps"
  using assms by (induction eps) (auto simp: reward_sum_def occurrences_def)

text \<open>
  C6, as amended. After \<^verbatim>\<open>encode\<close> has been applied, from the empty map, to any
  sequence of episodes whose feature pairs hold two different labels each, the value
  stored for a feature \<open>F\<close> that occurs in some episode is the sum of the rewards of
  the episodes whose pair contains \<open>F\<close>, and a feature that occurs in none is not
  stored. Encoding the same episodes in any order yields the same final model.
  (For a pair that holds the same label twice the reward is added twice: lemma
  \<open>encode_all_values\<close> gives the stored value for every sequence.) Rewards are
  reals here; the rewards that the Trial Orchestrator encodes are integers, whose
  sums Python computes exactly.
\<close>

theorem encode_all_sums_rewards:
  assumes "\<forall>e \<in> set eps. fst (fst e) \<noteq> snd (fst e)"
  shows "feature_values (FeatureBasedModel_encode_all (empty_feature_model b) eps) F
           = (if \<exists>e \<in> set eps. F = fst (fst e) \<or> F = snd (fst e)
              then Some (reward_sum F eps) else None)
       \<and> (\<forall>eps'. mset eps' = mset eps \<longrightarrow>
             FeatureBasedModel_encode_all (empty_feature_model b) eps'
               = FeatureBasedModel_encode_all (empty_feature_model b) eps)"
proof (intro conjI allI impI)
  have "(\<forall>e \<in> set eps. occurrences F (fst e) = 0)
      \<longleftrightarrow> \<not> (\<exists>e \<in> set eps. F = fst (fst e) \<or> F = snd (fst e))"
    by (auto simp: occurrences_def)
  then show "feature_values (FeatureBasedModel_encode_all (empty_feature_model b) eps) F
           = (if \<exists>e \<in> set eps. F = fst (fst e) \<or> F = snd (fst e)
              then Some (reward_sum F eps) else None)"
    unfolding encode_all_values weighted_sum_distinct [OF assms]
    by (simp add: empty_feature_model_def)
next
  fix eps' :: "((string \<times> string) \<times> real) list"
  assume "mset eps' = mset eps"
  then show "FeatureBasedModel_encode_all (empty_feature_model b) eps'
               = FeatureBasedModel_encode_all (empty_feature_model b) eps"
    by (rule encode_all_order_independent)
qed

theorem encode_all_sums_rewards_witness:
  "feature_values (FeatureBasedModel_encode_all (empty_feature_model 5)
       [((''Food'', ''Blue''), 2), ((''Food'', ''Red''), - 1), ((''Scene'', ''Blue''), 1)]) ''Food''
     = Some 1
   \<and> FeatureBasedModel_encode_all (empty_feature_model 5)
       [((''Scene'', ''Blue''), 1), ((''Food'', ''Blue''), 2), ((''Food'', ''Red''), - 1)]
     = FeatureBasedModel_encode_all (empty_feature_model 5)
       [((''Food'', ''Blue''), 2), ((''Food'', ''Red''), - 1), ((''Scene'', ''Blue''), 1)]"
proof -
  let ?eps = "[((''Food'', ''Blue''), 2 :: real), ((''Food'', ''Red''), - 1), ((''Scene'', ''Blue''), 1)]"
  have d: "\<forall>e \<in> set ?eps. fst (fst e) \<noteq> snd (fst e)" by simp
  have m: "mset [((''Scene'', ''Blue''), 1 :: real), ((''Food'', ''Blue''), 2), ((''Food'', ''Red''), - 1)]
      = mset ?eps" by simp
  note t = encode_all_sums_rewards [OF d, of 5 "''Food''"]
  have s: "reward_sum ''Food'' ?eps = 1" by (simp add: reward_sum_def)
  from t [THEN conjunct1] have v:
    "feature_values (FeatureBasedModel_encode_all (empty_feature_model 5) ?eps) ''Food'' = Some 1"
    unfolding s by simp
  from t [THEN conjunct2, rule_format, OF m] v show ?thesis by (rule conjI [rotated])
qed

text \<open>
  C6 as stated fails for an episode whose pair repeats a label: after encoding
  \<open>((Food, Food), 1)\<close> the stored value of \<open>Food\<close> is 2, the sum of rewards of the
  episodes that contain \<open>Food\<close> is 1.
\<close>

theorem encode_repeated_label_counterexample:
  "feature_values (FeatureBasedModel_encode_all (empty_feature_model 5)
       [((''Food'', ''Food''), 1)]) ''Food''
     \<noteq> Some (reward_sum ''Food'' [((''Food'', ''Food''), 1)])"
  by (simp add: empty_feature_model_def FeatureBasedModel_encode_def reward_sum_def)

lemma fb_decide_loop_rt: "snd (fst (fb_decide_loop fv b fs np pos)) = 2"
  by (induction fs) (auto simp: Let_def split: option.splits)

text \<open>
  C8. \<^verbatim>\<open>FeatureBasedModel.decide\<close> looks at the two elements of the offer pair in
  order and answers from the first one that is a key of the feature map, with choice 1
  exactly when the uniform draw is below \<open>1 / (1 + exp (- beta * value))\<close>; the
  second element is looked at only when the first is no key; when neither is a key the
  answer is \<open>(0, 2)\<close>; the second component is always 2.
\<close>

theorem FeatureBasedModel_decide_first_match:
  "FeatureBasedModel_decide m (a, b) np pos =
     (case feature_values m a of
        Some v \<Rightarrow> ((if np_random_random (np pos) < 1 / (1 + exp (- beta m * v)) then 1 else 0, 2), Suc pos)
      | None \<Rightarrow>
         (case feature_values m b of
            Some v \<Rightarrow> ((if np_random_random (np pos) < 1 / (1 + exp (- beta m * v)) then 1 else 0, 2), Suc pos)
          | None \<Rightarrow> ((0, 2), pos)))
   \<and> snd (fst (FeatureBasedModel_decide m offer np pos)) = 2"
  by (simp add: FeatureBasedModel_decide_def fb_decide_loop_rt Let_def split: option.splits)

theorem FeatureBasedModel_decide_first_match_witness:
  "FeatureBasedModel_decide \<lparr>beta = 1, feature_values = [''Food'' \<mapsto> 0, ''Blue'' \<mapsto> 100]\<rparr>
     (''Food'', ''Blue'') (\<lambda>_. (3 * 2 ^ 51, 0)) 0 = ((0, 2), 1)"
  using FeatureBasedModel_decide_first_match
    [of "\<lparr>beta = 1, feature_values = [''Food'' \<mapsto> 0, ''Blue'' \<mapsto> 100]\<rparr>"
        "''Food''" "''Blue''" "\<lambda>_. (3 * 2 ^ 51, 0)" 0]
  by (simp add: np_random_random_def)

section \<open>Properties of shuffling\<close>

lemma shuffle_loop_mset:
  "i < length x \<Longrightarrow> mset (fst (shuffle_loop i x raw pos)) = mset x"
proof (induction i arbitrary: x pos)
  case 0
  then show ?case by simp
next
  case (Suc i)
  let ?j = "randbelow (Suc i + 1) (raw pos)"
  have "?j < Suc (Suc i)" by (simp add: randbelow_def)
  with Suc.prems have j: "?j < length x" by linarith
  have "mset (x[Suc i := x ! ?j, ?j := x ! Suc i]) = mset x"
    using mset_swap [OF j Suc.prems] .
  moreover have "i < length (x[Suc i := x ! ?j, ?j := x ! Suc i])" using Suc.prems by simp
  ultimately show ?case using Suc.IH [of "x[Suc i := x ! ?j, ?j := x ! Suc i]" "Suc pos"]
    by (simp add: Let_def)
qed

lemma shuffle_mset: "mset (fst (shuffle x raw pos)) = mset x"
proof (cases x)
  case Nil
  then show ?thesis by (simp add: shuffle_def)
next
  case (Cons a list)
  then show ?thesis by (simp add: shuffle_def shuffle_loop_mset)
qed

lemma np_random_permutation_mset:
  "mset (fst (np_random_permutation n np pos)) = mset [0..<n]"
  by (simp add: np_random_permutation_def shuffle_mset)

section \<open>Properties of the Episodic Decision Model\<close>

lemma np_random_random_range: "0 \<le> np_random_random c \<and> np_random_random c < 1"
proof -
  have "fst c mod 2 ^ 53 < (2 ^ 53 :: nat)" by simp
  then have "real (fst c mod 2 ^ 53) < real (2 ^ 53 :: nat)" by (rule of_nat_less_iff [THEN iffD2])
  then show ?thesis by (simp add: np_random_random_def)
qed

lemma recall_loop_Cons_cases:
  assumes "recall_loop m offer (idx # rest) np (t, v, n, p) = Inr s'"
  obtains (break) "s' = (t, v, n, Suc p)"
      "np_random_random (np p) < p_stop m * (real n + 1) \<or> t + recall_time m > max_decision_time m"
    | (commit) v' p' where
      "\<not> np_random_random (np p) < p_stop m * (real n + 1)"
      "t + recall_time m \<le> max_decision_time m"
      "idx < length (episodes m)"
      "recall_loop m offer rest np (t + recall_time m, v', Suc n, p') = Inr s'"
      "if matches offer (episodes m ! idx)
       then 0 \<le> recall_noise m \<and> v' = v + (reward (episodes m ! idx) + recall_noise m * snd (np (Suc p)))
            \<and> p' = Suc (Suc p)
       else v' = v \<and> p' = Suc p"
  using assms
  by (auto simp: Let_def matches_def np_random_normal_def split: if_splits sum.splits)

lemma recall_loop_elapsed:
  "recall_loop m offer order np (t, v, n, p) = Inr (t', v', n', p') \<Longrightarrow>
     (0 \<le> recall_time m \<longrightarrow> t \<le> t') \<and> (recall_time m \<le> 0 \<longrightarrow> t' \<le> t)
     \<and> (t' = t \<or> t' \<le> max_decision_time m)"
proof (induction order arbitrary: t v n p)
  case Nil
  then show ?case by simp
next
  case (Cons idx rest)
  from Cons.prems show ?case
  proof (cases rule: recall_loop_Cons_cases)
    case break
    then show ?thesis by simp
  next
    case (commit w q)
    from Cons.IH [OF commit(4)] commit(2) show ?thesis by auto
  qed
qed

lemma recall_loop_returns:
  assumes "0 \<le> recall_noise m" and "\<forall>idx \<in> set order. idx < length (episodes m)"
  shows "\<exists>s'. recall_loop m offer order np s = Inr s'"
  using assms(2)
proof (induction order arbitrary: s)
  case Nil
  show ?case by (rule exI [of _ s]) simp
next
  case (Cons idx rest)
  obtain t v n p where s: "s = (t, v, n, p)" by (rule prod_cases4)
  from Cons.prems have "idx < length (episodes m)" "\<forall>idx \<in> set rest. idx < length (episodes m)"
    by simp_all
  with Cons.IH assms(1) show ?case unfolding s
    by (auto simp: Let_def np_random_normal_def)
qed

lemma permutation_indices:
  "np_random_permutation n np pos = (order, p) \<Longrightarrow> set order = {0..<n} \<and> length order = n"
proof -
  assume a: "np_random_permutation n np pos = (order, p)"
  from np_random_permutation_mset [of n np pos] a have m: "mset order = mset [0..<n]" by simp
  from mset_eq_setD [OF m] mset_eq_length [OF m] show ?thesis by simp
qed

lemma recall_loop_all_committed:
  assumes "p_stop m = 0" and "recall_noise m = 0"
  shows "\<forall>idx \<in> set order. idx < length (episodes m) \<Longrightarrow>
     \<forall>k < length order. t + (real k + 1) * recall_time m \<le> max_decision_time m \<Longrightarrow>
     \<exists>p'. recall_loop m offer order np (t, v, n, p)
        = Inr (t + real (length order) * recall_time m,
               v + (\<Sum>idx\<leftarrow>order. if matches offer (episodes m ! idx)
                                     then reward (episodes m ! idx) else 0),
               n + length order, p')"
proof (induction order arbitrary: t v n p)
  case Nil
  then show ?case by simp
next
  case (Cons idx rest)
  let ?e = "episodes m ! idx"
  let ?v = "v + (if matches offer ?e then reward ?e else 0)"
  from Cons.prems(1) have i: "idx < length (episodes m)"
    and r: "\<forall>idx \<in> set rest. idx < length (episodes m)" by simp_all
  from Cons.prems(2) [rule_format, of 0] have now: "\<not> t + recall_time m > max_decision_time m"
    by simp
  have later: "\<forall>k < length rest.
      (t + recall_time m) + (real k + 1) * recall_time m \<le> max_decision_time m"
  proof (intro allI impI)
    fix k assume "k < length rest"
    with Cons.prems(2) [rule_format, of "Suc k"]
    show "(t + recall_time m) + (real k + 1) * recall_time m \<le> max_decision_time m"
      by (simp add: algebra_simps)
  qed
  have go: "\<not> np_random_random (np p) < p_stop m * (real n + 1)"
    using np_random_random_range [of "np p"] by (simp add: assms(1))
  have step: "\<exists>q. recall_loop m offer (idx # rest) np (t, v, n, p)
      = recall_loop m offer rest np (t + recall_time m, ?v, Suc n, q)"
    using go now i
    by (auto simp: Let_def matches_def np_random_normal_def assms(2))
  then obtain q where q: "recall_loop m offer (idx # rest) np (t, v, n, p)
      = recall_loop m offer rest np (t + recall_time m, ?v, Suc n, q)" ..
  from Cons.IH [OF r later, of ?v "Suc n" q] obtain p' where
    "recall_loop m offer rest np (t + recall_time m, ?v, Suc n, q)
       = Inr (t + recall_time m + real (length rest) * recall_time m,
              ?v + (\<Sum>idx\<leftarrow>rest. if matches offer (episodes m ! idx)
                                     then reward (episodes m ! idx) else 0),
              Suc n + length rest, p')" ..
  with q show ?case by (simp add: algebra_simps)
qed

lemma sum_over_permutation:
  fixes g :: "'a \<Rightarrow> real"
  assumes "mset order = mset [0..<length xs]"
  shows "(\<Sum>idx\<leftarrow>order. g (xs ! idx)) = (\<Sum>x\<leftarrow>xs. g x)"
proof -
  have "(\<Sum>idx\<leftarrow>order. g (xs ! idx)) = (\<Sum>idx\<leftarrow>[0..<length xs]. g (xs ! idx))"
    by (rule sum_list_map_mset_cong [OF assms])
  also have "\<dots> = sum_list (map g (map (\<lambda>idx. xs ! idx) [0..<length xs]))"
    by (simp add: comp_def)
  also have "\<dots> = (\<Sum>x\<leftarrow>xs. g x)" by (simp only: map_nth)
  finally show ?thesis .
qed

lemma matching_rewards_sum:
  assumes "\<forall>e \<in> set eps. fst (item_features e) \<noteq> [] \<and> snd (item_features e) \<noteq> []"
  shows "(\<Sum>e\<leftarrow>eps. if matches (F, []) e then reward e else 0)
       = reward_sum F (map (\<lambda>e. (item_features e, reward e)) eps)"
  using assms by (induction eps) (auto simp: reward_sum_def matches_def)

lemma decide_unfold:
  "EpisodicModel_decide m offer np pos = Inr ((c, t, n, v), pos') \<longleftrightarrow>
     (\<exists>order p1. np_random_permutation (length (episodes m)) np pos = (order, p1)
        \<and> recall_loop m offer order np (non_decision_time m, 0, 0, p1) = Inr (t, v, n, pos')
        \<and> c = (if v > 0 then 1 else 0))"
  by (cases "np_random_permutation (length (episodes m)) np pos")
     (auto simp: EpisodicModel_decide_def split: sum.splits)

lemma decide_returns:
  assumes "0 \<le> recall_noise m"
  shows "\<exists>r. EpisodicModel_decide m offer np pos = Inr r"
proof -
  obtain order p1 where o: "np_random_permutation (length (episodes m)) np pos = (order, p1)"
    by (cases "np_random_permutation (length (episodes m)) np pos")
  from permutation_indices [OF o] have "\<forall>idx \<in> set order. idx < length (episodes m)" by simp
  from recall_loop_returns [OF assms this, of offer np "(non_decision_time m, 0, 0, p1)"]
  obtain t v n p where "recall_loop m offer order np (non_decision_time m, 0, 0, p1) = Inr (t, v, n, p)"
    by (metis prod_cases4)
  with o show ?thesis by (simp add: EpisodicModel_decide_def)
qed

lemma shuffle_loop_one:
  "shuffle_loop (Suc 0) x raw pos =
     (x[Suc 0 := x ! randbelow 2 (raw pos), randbelow 2 (raw pos) := x ! Suc 0], Suc pos)"
  by (simp add: Let_def numeral_2_eq_2)

lemma example_permutation: "np_random_permutation 2 example_np 0 = ([1, 0], 1)"
proof -
  have "randbelow 2 (fst (example_np 0)) = 0" by (simp add: randbelow_def example_np_def)
  then have "randbelow (Suc (Suc 0)) (fst (example_np 0)) = 0" by (simp only: numeral_2_eq_2)
  then show ?thesis
    by (simp add: np_random_permutation_def shuffle_def upt_conv_Cons shuffle_loop_one)
qed

lemma example_uniform: "np_random_random (example_np i) = 1 / 2"
  by (simp add: np_random_random_def example_np_def)

lemma example_deviate: "snd (example_np i) = 0"
  by (simp add: example_np_def)

lemma example_model_fields:
  "non_decision_time example_model = 3 / 2" "recall_time example_model = 1 / 2"
  "recall_noise example_model = 1 / 2" "p_stop example_model = 1 / 10"
  "max_decision_time example_model = 15 / 2"
  "episodes example_model = [\<lparr>item_features = (''Food'', ''Blue''), reward = 2\<rparr>,
                  \<lparr>item_features = (''Scene'', ''Blue''), reward = - 1\<rparr>]"
  by (simp_all add: example_model_def)

text \<open>
  C4, as amended. \<^verbatim>\<open>EpisodicModel.decide\<close> returns for every episode collection
  and every parameterisation with a recall noise that is not negative. Whenever it
  returns: if the recall time is not negative, the elapsed time is at least the
  non-decision time; and if the non-decision time is at most the max decision time plus
  one recall-time increment, so is the elapsed time.
\<close>

theorem EpisodicModel_decide_elapsed_bounds:
  "(0 \<le> recall_noise m \<longrightarrow> (\<exists>r. EpisodicModel_decide m offer np pos = Inr r))
   \<and> (\<forall>c t n v pos'. EpisodicModel_decide m offer np pos = Inr ((c, t, n, v), pos') \<longrightarrow>
         (0 \<le> recall_time m \<longrightarrow> non_decision_time m \<le> t)
       \<and> (non_decision_time m \<le> max_decision_time m + recall_time m
            \<longrightarrow> t \<le> max_decision_time m + recall_time m))"
proof (intro conjI allI impI)
  assume "0 \<le> recall_noise m"
  then show "\<exists>r. EpisodicModel_decide m offer np pos = Inr r" by (rule decide_returns)
next
  fix c t n v pos'
  assume d: "EpisodicModel_decide m offer np pos = Inr ((c, t, n, v), pos')"
  then obtain order p1 where
    r: "recall_loop m offer order np (non_decision_time m, 0, 0, p1) = Inr (t, v, n, pos')"
    unfolding decide_unfold by blast
  note b = recall_loop_elapsed [OF r]
  { assume "0 \<le> recall_time m"
    with b show "non_decision_time m \<le> t" by simp }
  { assume "non_decision_time m \<le> max_decision_time m + recall_time m"
    with b show "t \<le> max_decision_time m + recall_time m"
      by (cases "0 \<le> recall_time m") auto }
qed

lemma decide_from_loop:
  "np_random_permutation (length (episodes m)) np pos = (order, p1) \<Longrightarrow>
   recall_loop m offer order np (non_decision_time m, 0, 0, p1) = Inr (t, v, n, pos') \<Longrightarrow>
   EpisodicModel_decide m offer np pos = Inr ((if v > 0 then 1 else 0, t, n, v), pos')"
  by (simp add: EpisodicModel_decide_def)

lemma example_decide:
  "EpisodicModel_decide example_model (''Food'', '''') example_np 0 = Inr ((1, 5 / 2, 2, 2), 4)"
proof -
  have l: "length (episodes example_model) = 2" by (simp add: example_model_fields)
  have p: "np_random_permutation (length (episodes example_model)) example_np 0 = ([1, 0], 1)"
    unfolding l by (rule example_permutation)
  have r: "recall_loop example_model (''Food'', '''') [1, 0] example_np
             (non_decision_time example_model, 0, 0, 1) = Inr (5 / 2, 2, 2, 4)"
    apply (simp add: example_uniform)
    apply (simp add: example_model_fields Let_def)
    apply (simp add: example_uniform example_deviate np_random_normal_def)
    done
  from decide_from_loop [OF p r] show ?thesis by simp
qed

theorem EpisodicModel_decide_elapsed_bounds_witness:
  "EpisodicModel_decide example_model (''Food'', '''') example_np 0 = Inr ((1, 5 / 2, 2, 2), 4)
   \<and> non_decision_time example_model \<le> 5 / 2
   \<and> 5 / 2 \<le> max_decision_time example_model + recall_time example_model"
proof -
  have h: "0 \<le> recall_time example_model"
    "non_decision_time example_model \<le> max_decision_time example_model + recall_time example_model"
    by (simp_all add: example_model_def)
  from EpisodicModel_decide_elapsed_bounds
    [of example_model "(''Food'', '''')" example_np 0, THEN conjunct2, rule_format, OF example_decide]
    h example_decide
  show ?thesis by blast
qed

text \<open>
  C4 as stated fails for some parameterisations. With non-decision time 10 and the
  default max decision time 7.5 the elapsed time is 10, above 7.5 + 0.5. With recall
  time -0.5 one committed recall takes the elapsed time from 1.5 down to 1.
\<close>

theorem EpisodicModel_decide_elapsed_counterexample:
  "EpisodicModel_decide late_model (''Food'', '''') example_np 0 = Inr ((0, 10, 0, 0), 0)
   \<and> \<not> 10 \<le> max_decision_time late_model + recall_time late_model
   \<and> EpisodicModel_decide rewinding_model (''Food'', '''') example_np 0 = Inr ((1, 1, 1, 2), 2)
   \<and> \<not> non_decision_time rewinding_model \<le> 1"
proof -
  have p0: "np_random_permutation (length (episodes late_model)) example_np 0 = ([], 0)"
    and p1: "np_random_permutation (length (episodes rewinding_model)) example_np 0 = ([0], 0)"
    by (simp_all add: np_random_permutation_def shuffle_def late_model_def rewinding_model_def)
  have r0: "recall_loop late_model (''Food'', '''') [] example_np
              (non_decision_time late_model, 0, 0, 0) = Inr (10, 0, 0, 0)"
    by (simp add: late_model_def)
  have r1: "recall_loop rewinding_model (''Food'', '''') [0] example_np
              (non_decision_time rewinding_model, 0, 0, 0) = Inr (1, 2, 1, 2)"
    apply (simp add: example_uniform)
    apply (simp add: rewinding_model_def Let_def)
    apply (simp add: example_deviate np_random_normal_def)
    done
  from decide_from_loop [OF p0 r0] decide_from_loop [OF p1 r1] show ?thesis
    by (simp add: late_model_def rewinding_model_def)
qed

text \<open>
  C7. With stop probability 0, recall noise 0 and a max decision time that admits all
  stored episodes (each of the recalls, one after the other, ends within it),
  \<^verbatim>\<open>decide((F, ""))\<close> commits every stored episode, for every recall order (every
  permutation of the indices, and so the one that is drawn), and the summed value is the
  sum of the rewards of the episodes whose pair contains \<open>F\<close>: the empty second slot
  of the offer matches no episode whose labels are not empty. Rewards and summed value
  are reals here; the rewards of the program are integers, whose sums are exact in
  Python's floats as well.
\<close>

theorem EpisodicModel_decide_recalls_everything:
  assumes "p_stop m = 0" and "recall_noise m = 0"
    and "\<forall>k < length (episodes m).
           non_decision_time m + (real k + 1) * recall_time m \<le> max_decision_time m"
    and "\<forall>e \<in> set (episodes m). fst (item_features e) \<noteq> [] \<and> snd (item_features e) \<noteq> []"
  shows "(\<forall>order p. mset order = mset [0..<length (episodes m)] \<longrightarrow>
            (\<exists>p'. recall_loop m (F, []) order np (non_decision_time m, 0, 0, p)
               = Inr (non_decision_time m + real (length (episodes m)) * recall_time m,
                      reward_sum F (episode_pairs m), length (episodes m), p')))
       \<and> (\<exists>pos'. EpisodicModel_decide m (F, []) np pos
            = Inr ((if reward_sum F (episode_pairs m) > 0 then 1 else 0,
                    non_decision_time m + real (length (episodes m)) * recall_time m,
                    length (episodes m), reward_sum F (episode_pairs m)), pos'))
       \<and> (\<forall>e \<in> set (episodes m).
            matches (F, []) e \<longleftrightarrow> F = fst (item_features e) \<or> F = snd (item_features e))"
proof -
  have loop: "\<exists>p'. recall_loop m (F, []) order np (non_decision_time m, 0, 0, p)
               = Inr (non_decision_time m + real (length (episodes m)) * recall_time m,
                      reward_sum F (episode_pairs m), length (episodes m), p')"
    if o: "mset order = mset [0..<length (episodes m)]" for order p
  proof -
    from mset_eq_setD [OF o] have i: "\<forall>idx \<in> set order. idx < length (episodes m)" by simp
    from mset_eq_length [OF o] have l: "length order = length (episodes m)" by simp
    have s: "(\<Sum>idx\<leftarrow>order. if matches (F, []) (episodes m ! idx)
                                     then reward (episodes m ! idx) else 0)
        = reward_sum F (episode_pairs m)"
      unfolding episode_pairs_def matching_rewards_sum [OF assms(4), symmetric]
      by (rule sum_over_permutation [OF o])
    from recall_loop_all_committed [OF assms(1,2) i, of "non_decision_time m" "(F, [])" np 0 0 p]
      assms(3) show ?thesis by (simp add: l s)
  qed
  obtain order p1 where p: "np_random_permutation (length (episodes m)) np pos = (order, p1)"
    by (cases "np_random_permutation (length (episodes m)) np pos")
  with np_random_permutation_mset [of "length (episodes m)" np pos]
  have "mset order = mset [0..<length (episodes m)]" by simp
  from loop [OF this, of p1] p
  have dec: "\<exists>pos'. EpisodicModel_decide m (F, []) np pos
            = Inr ((if reward_sum F (episode_pairs m) > 0 then 1 else 0,
                    non_decision_time m + real (length (episodes m)) * recall_time m,
                    length (episodes m), reward_sum F (episode_pairs m)), pos')"
    by (auto simp: EpisodicModel_decide_def)
  have "\<forall>e \<in> set (episodes m).
            matches (F, []) e \<longleftrightarrow> F = fst (item_features e) \<or> F = snd (item_features e)"
    using assms(4) by (auto simp: matches_def)
  with loop dec show ?thesis by blast
qed

theorem EpisodicModel_decide_recalls_everything_witness:
  "\<exists>pos'. EpisodicModel_decide patient_model (''Blue'', '''') example_np 0
     = Inr ((1, 5 / 2, 2, 1), pos')"
proof -
  have h: "p_stop patient_model = 0" "recall_noise patient_model = 0"
    "\<forall>k < length (episodes patient_model).
       non_decision_time patient_model + (real k + 1) * recall_time patient_model
         \<le> max_decision_time patient_model"
    "\<forall>e \<in> set (episodes patient_model). fst (item_features e) \<noteq> [] \<and> snd (item_features e) \<noteq> []"
    by (auto simp: patient_model_def less_Suc_eq)
  have s: "reward_sum ''Blue'' (episode_pairs patient_model) = 1"
    "non_decision_time patient_model + real (length (episodes patient_model)) * recall_time patient_model
       = 5 / 2"
    "length (episodes patient_model) = 2"
    by (simp_all add: reward_sum_def episode_pairs_def patient_model_def)
  have t: "non_decision_time patient_model + 2 * recall_time patient_model = 5 / 2"
    by (simp add: patient_model_def)
  from EpisodicModel_decide_recalls_everything
    [OF h, of "''Blue''" example_np 0, THEN conjunct2, THEN conjunct1]
  show ?thesis unfolding s by (simp add: t)
qed

lemma recall_spec_imp_loop:
  "recall_spec m offer np order s s' \<Longrightarrow> recall_loop m offer order np s = Inr s'"
  by (induction rule: recall_spec.induct)
     (simp_all add: stop_probability_def matches_def Let_def np_random_normal_def)

lemma recall_loop_imp_spec:
  "recall_loop m offer order np (t, v, n, p) = Inr s' \<Longrightarrow>
     recall_spec m offer np order (t, v, n, p) s'"
proof (induction order arbitrary: t v n p)
  case Nil
  then show ?case by (simp add: recall_spec.exhausted)
next
  case (Cons idx rest)
  from Cons.prems show ?case
  proof (cases rule: recall_loop_Cons_cases)
    case break
    show ?thesis
    proof (cases "np_random_random (np p) < stop_probability m n")
      case True
      then show ?thesis unfolding break(1) by (rule recall_spec.stop)
    next
      case False
      moreover from False break(2) have "t + recall_time m > max_decision_time m"
        by (simp add: stop_probability_def)
      ultimately show ?thesis unfolding break(1) by (rule recall_spec.out_of_time)
    qed
  next
    case (commit w q)
    from commit(1) have go: "\<not> np_random_random (np p) < stop_probability m n"
      by (simp add: stop_probability_def)
    from Cons.IH [OF commit(4)]
    have rest: "recall_spec m offer np rest (t + recall_time m, w, Suc n, q) s'" .
    show ?thesis
    proof (cases "matches offer (episodes m ! idx)")
      case True
      with commit(5) have "0 \<le> recall_noise m"
        and "w = v + (reward (episodes m ! idx) + recall_noise m * snd (np (Suc p)))"
        and "q = Suc (Suc p)" by simp_all
      with rest go commit(2) commit(3) True show ?thesis
        by (intro recall_spec.commit_match) simp_all
    next
      case False
      with commit(5) have "w = v" "q = Suc p" by simp_all
      with rest go commit(2) commit(3) False show ?thesis
        by (intro recall_spec.commit_other) simp_all
    qed
  qed
qed

lemma recall_loop_iff_spec:
  "recall_loop m offer order np (t, v, n, p) = Inr s' \<longleftrightarrow>
     recall_spec m offer np order (t, v, n, p) s'"
  using recall_loop_imp_spec recall_spec_imp_loop by blast

lemma recall_loop_count_mono:
  "recall_loop m offer order np (t, v, n, p) = Inr (t', v', n', p') \<Longrightarrow> n \<le> n'"
proof (induction order arbitrary: t v n p)
  case Nil
  then show ?case by simp
next
  case (Cons idx rest)
  from Cons.prems show ?case
  proof (cases rule: recall_loop_Cons_cases)
    case break
    then show ?thesis by simp
  next
    case (commit w q)
    from Cons.IH [OF commit(4)] show ?thesis by simp
  qed
qed

text \<open>
  C3. \<^verbatim>\<open>EpisodicModel.decide\<close> returns \<open>(choice, elapsed, recalled, summed)\<close>
  exactly when the loop of the specification, run over the drawn recall order from
  elapsed time = non-decision time, recalled count 0 and summed value 0, ends in
  \<open>(elapsed, summed, recalled)\<close>, and choice is 1 for a strictly positive summed value
  and 0 otherwise. The drawn recall order is a permutation of the episode indices. The
  stop probability grows strictly with every committed recall (for a positive base).
  The time check is strict: with the stop check passed, an attempt that would end
  strictly above the max decision time ends the loop with the state unchanged, and one
  that ends exactly at the limit is committed.
\<close>

theorem EpisodicModel_decide_implements_recall:
  "(EpisodicModel_decide m offer np pos = Inr ((c, t, n, v), pos') \<longleftrightarrow>
      (\<exists>order p1. np_random_permutation (length (episodes m)) np pos = (order, p1)
         \<and> recall_spec m offer np order (non_decision_time m, 0, 0, p1) (t, v, n, pos')
         \<and> c = (if v > 0 then 1 else 0)))
   \<and> mset (fst (np_random_permutation (length (episodes m)) np pos))
       = mset [0..<length (episodes m)]
   \<and> (0 < p_stop m \<longrightarrow> stop_probability m k < stop_probability m (Suc k))
   \<and> (\<not> np_random_random (np p0) < stop_probability m n0
        \<and> t0 + recall_time m > max_decision_time m \<longrightarrow>
        recall_loop m offer (idx # rest) np (t0, v0, n0, p0) = Inr (t0, v0, n0, Suc p0))
   \<and> (\<not> np_random_random (np p0) < stop_probability m n0
        \<and> t0 + recall_time m = max_decision_time m
        \<and> recall_loop m offer (idx # rest) np (t0, v0, n0, p0) = Inr (t', v', n', p') \<longrightarrow>
        Suc n0 \<le> n')"
proof (intro conjI impI)
  show "EpisodicModel_decide m offer np pos = Inr ((c, t, n, v), pos') \<longleftrightarrow>
      (\<exists>order p1. np_random_permutation (length (episodes m)) np pos = (order, p1)
         \<and> recall_spec m offer np order (non_decision_time m, 0, 0, p1) (t, v, n, pos')
         \<and> c = (if v > 0 then 1 else 0))"
    unfolding decide_unfold recall_loop_iff_spec ..
next
  show "mset (fst (np_random_permutation (length (episodes m)) np pos))
       = mset [0..<length (episodes m)]"
    by (rule np_random_permutation_mset)
next
  assume "0 < p_stop m"
  then show "stop_probability m k < stop_probability m (Suc k)"
    by (simp add: stop_probability_def)
next
  assume "\<not> np_random_random (np p0) < stop_probability m n0
        \<and> t0 + recall_time m > max_decision_time m"
  then show "recall_loop m offer (idx # rest) np (t0, v0, n0, p0) = Inr (t0, v0, n0, Suc p0)"
    by (simp add: stop_probability_def)
next
  assume a: "\<not> np_random_random (np p0) < stop_probability m n0
        \<and> t0 + recall_time m = max_decision_time m
        \<and> recall_loop m offer (idx # rest) np (t0, v0, n0, p0) = Inr (t', v', n', p')"
  then have "recall_loop m offer (idx # rest) np (t0, v0, n0, p0) = Inr (t', v', n', p')" by simp
  then show "Suc n0 \<le> n'"
  proof (cases rule: recall_loop_Cons_cases)
    case break
    with a show ?thesis by (simp add: stop_probability_def)
  next
    case (commit w q)
    from recall_loop_count_mono [OF commit(4)] show ?thesis .
  qed
qed

theorem EpisodicModel_decide_implements_recall_witness:
  "recall_spec example_model (''Food'', '''') example_np [1, 0] (3 / 2, 0, 0, 1) (5 / 2, 2, 2, 4)
   \<and> stop_probability example_model 0 < stop_probability example_model 1
   \<and> recall_loop example_model (''Food'', '''') [0] example_np (15 / 2, 0, 0, 0)
       = Inr (15 / 2, 0, 0, 1)
   \<and> recall_loop example_model (''Food'', '''') [0] example_np (7, 0, 0, 0)
       = Inr (15 / 2, 2, 1, 2)
   \<and> Suc 0 \<le> 1"
proof -
  have p: "np_random_permutation (length (episodes example_model)) example_np 0 = ([1, 0], 1)"
    using example_permutation by (simp add: example_model_fields numeral_2_eq_2)
  have s: "0 < p_stop example_model" by (simp add: example_model_fields)
  have go: "\<not> np_random_random (example_np 0) < stop_probability example_model 0"
    by (simp add: example_uniform stop_probability_def example_model_fields)
  have above: "\<not> np_random_random (example_np 0) < stop_probability example_model 0
      \<and> 15 / 2 + recall_time example_model > max_decision_time example_model"
    using go by (simp add: example_model_fields)
  have at_limit: "recall_loop example_model (''Food'', '''') [0] example_np (7, 0, 0, 0)
       = Inr (15 / 2, 2, 1, 2)"
    apply (simp add: example_uniform)
    apply (simp add: example_model_fields Let_def)
    apply (simp add: example_deviate np_random_normal_def)
    done
  have limit: "\<not> np_random_random (example_np 0) < stop_probability example_model 0
      \<and> 7 + recall_time example_model = max_decision_time example_model
      \<and> recall_loop example_model (''Food'', '''') [0] example_np (7, 0, 0, 0)
           = Inr (15 / 2, 2, 1, 2)"
    using go at_limit by (simp add: example_model_fields)
  note t1 = EpisodicModel_decide_implements_recall
    [of example_model "(''Food'', '''')" example_np 0 1 "5 / 2" 2 2 4 0]
  note t2 = EpisodicModel_decide_implements_recall
    [where m = example_model and offer = "(''Food'', '''')" and np = example_np
       and ?p0.0 = 0 and ?n0.0 = 0 and ?t0.0 = "15 / 2" and ?v0.0 = 0 and idx = 0 and rest = "[]"]
  note t3 = EpisodicModel_decide_implements_recall
    [where m = example_model and offer = "(''Food'', '''')" and np = example_np
       and ?p0.0 = 0 and ?n0.0 = 0 and ?t0.0 = 7 and ?v0.0 = 0 and idx = 0 and rest = "[]"
       and t' = "15 / 2" and v' = 2 and n' = 1 and p' = 2]
  from t1 [THEN conjunct1] example_decide p
  have a: "recall_spec example_model (''Food'', '''') example_np [1, 0] (3 / 2, 0, 0, 1) (5 / 2, 2, 2, 4)"
    by (simp add: example_model_fields)
  from t1 [THEN conjunct2, THEN conjunct2, THEN conjunct1, rule_format, OF s]
  have b: "stop_probability example_model 0 < stop_probability example_model 1" by simp
  from t2 [THEN conjunct2, THEN conjunct2, THEN conjunct2, THEN conjunct1, rule_format, OF above]
  have c: "recall_loop example_model (''Food'', '''') [0] example_np (15 / 2, 0, 0, 0)
       = Inr (15 / 2, 0, 0, 1)" by simp
  from t3 [THEN conjunct2, THEN conjunct2, THEN conjunct2, THEN conjunct2, rule_format, OF limit]
  have d: "Suc 0 \<le> 1" .
  from a b c at_limit d show ?thesis by (intro conjI)
qed

section \<open>Properties of the Trial Orchestrator\<close>

lemma FeatureBasedModel_decide_rt:
  "FeatureBasedModel_decide fb offer np pos = ((c2, t2), pos2) \<Longrightarrow> t2 = 2"
  using fb_decide_loop_rt [of "feature_values fb" "beta fb" "[fst offer, snd offer]" np pos]
  by (simp add: FeatureBasedModel_decide_def)

lemma decisions_loop_same_recall:
  "decisions_loop opts ep fb tv gn np (ers, frs, p) = Inr (ers', frs', p') \<Longrightarrow>
   configured ep \<Longrightarrow>
   list_all2 (same_recall np) ers frs \<Longrightarrow> list_all2 (same_recall np) ers' frs'"
proof (induction opts arbitrary: ers frs p)
  case Nil
  then show ?case by simp
next
  case (Cons feat rest)
  from Cons.prems(1) obtain c t k v pos1 where
    d: "EpisodicModel_decide ep (feat, '''') np p = Inr ((c, t, k, v), pos1)"
    by (auto split: sum.splits)
  from Cons.prems(1) d obtain x where x: "tv feat = Some x"
    by (auto split: option.splits)
  obtain c2 t2 pos2 where f: "FeatureBasedModel_decide fb (feat, '''') np pos1 = ((c2, t2), pos2)"
    by (metis surj_pair)
  let ?er = "\<lparr>model = ''episodic'', feature = feat, choice = c, rt = t,
              n_memories = Some k, true_value = x, recalled_value = v, game_number = gn\<rparr>"
  let ?fr = "\<lparr>model = ''feature'', feature = feat, choice = c2, rt = real_of_int t2,
              n_memories = None, true_value = x, recalled_value = v, game_number = gn\<rparr>"
  from Cons.prems(1) d x f have r:
    "decisions_loop rest ep fb tv gn np (ers @ [?er], frs @ [?fr], pos2) = Inr (ers', frs', p')"
    by simp
  have "\<exists>m pos c t k v' pos'.
           configured m
           \<and> EpisodicModel_decide m (feat, '''') np pos = Inr ((c, t, k, v'), pos')
           \<and> v = v' \<and> v = v'"
    using d Cons.prems(2) by blast
  then have "same_recall np ?er ?fr"
    using FeatureBasedModel_decide_rt [OF f] by (simp add: same_recall_def)
  with Cons.prems(3) have "list_all2 (same_recall np) (ers @ [?er]) (frs @ [?fr])"
    by (simp add: list_all2_appendI)
  from Cons.IH [OF r Cons.prems(2) this] show ?case .
qed

lemma encode_both_parameters:
  "non_decision_time (fst (encode_both eps (ep, fb))) = non_decision_time ep
   \<and> recall_time (fst (encode_both eps (ep, fb))) = recall_time ep
   \<and> recall_noise (fst (encode_both eps (ep, fb))) = recall_noise ep
   \<and> p_stop (fst (encode_both eps (ep, fb))) = p_stop ep
   \<and> max_decision_time (fst (encode_both eps (ep, fb))) = max_decision_time ep"
  by (induction eps arbitrary: ep fb) (auto simp: EpisodicModel_encode_def)

lemma encode_both_configured:
  "configured (fst (encode_both eps (ep, fb))) = configured ep"
  unfolding configured_def by (simp only: encode_both_parameters)

lemma run_trial_same_recall:
  assumes "run_trial raw np (ep, fb, ers, frs, p, q) = Some (Inr (ep', fb', ers', frs', p', q'))"
    and "configured ep" and "list_all2 (same_recall np) ers frs"
  shows "configured ep' \<and> list_all2 (same_recall np) ers' frs'"
proof -
  from assms(1) obtain eps tv opts gn where
    e: "encode_both eps (ep\<lparr>episodes := []\<rparr>, fb\<lparr>feature_values := Map.empty\<rparr>) = (ep', fb')"
    and d: "decisions_loop opts ep' fb' tv gn np (ers, frs, q) = Inr (ers', frs', q')"
    by (auto simp: run_trial_def Let_def split: option.splits sum.splits prod.splits)
  from assms(2) have "configured (ep\<lparr>episodes := []\<rparr>)" by (simp add: configured_def)
  with encode_both_configured [of eps "ep\<lparr>episodes := []\<rparr>" "fb\<lparr>feature_values := Map.empty\<rparr>"] e
  have c: "configured ep'" by simp
  from decisions_loop_same_recall [OF d c assms(3)] c show ?thesis by simp
qed

lemma trials_loop_same_recall:
  "trials_loop n raw np (ep, fb, ers, frs, p, q) = Some (Inr (ep', fb', ers', frs', p', q')) \<Longrightarrow>
   configured ep \<Longrightarrow>
   list_all2 (same_recall np) ers frs \<Longrightarrow> list_all2 (same_recall np) ers' frs'"
proof (induction n arbitrary: ep fb ers frs p q)
  case 0
  then show ?case by simp
next
  case (Suc n)
  from Suc.prems(1) obtain st where s: "run_trial raw np (ep, fb, ers, frs, p, q) = Some (Inr st)"
    and t: "trials_loop n raw np st = Some (Inr (ep', fb', ers', frs', p', q'))"
    by (auto split: option.splits sum.splits)
  obtain ep1 fb1 ers1 frs1 p1 q1 where st: "st = (ep1, fb1, ers1, frs1, p1, q1)"
    by (metis prod_cases6)
  from run_trial_same_recall [OF s [unfolded st] Suc.prems(2) Suc.prems(3)]
  have "configured ep1" "list_all2 (same_recall np) ers1 frs1" by simp_all
  from Suc.IH [OF t [unfolded st] this] show ?case .
qed

text \<open>
  C10. In the tables that \<^verbatim>\<open>simulate_trials\<close> returns, for any number of trials, the
  feature rows correspond one to one, in order, to the episodic rows, and the recalled
  value of every feature row is the summed value that \<^verbatim>\<open>EpisodicModel.decide\<close>
  returned for the same feature in the same pass; \<^verbatim>\<open>FeatureBasedModel.decide\<close>
  returns a choice and the response time 2 only.
\<close>

theorem feature_rows_carry_episodic_recall:
  assumes "simulate_trials n_trials raw np = Some (Inr (episodic_results, feature_results))"
  shows "list_all2 (same_recall np) episodic_results feature_results"
proof -
  let ?ep = "\<lparr>non_decision_time = 3 / 2, recall_time = 1 / 2, recall_noise = 1 / 2,
         p_stop = 1 / 10, max_decision_time = 15 / 2, episodes = []\<rparr>"
  from assms obtain ep fb p q where
    t: "trials_loop n_trials raw np (?ep, \<lparr>beta = 5, feature_values = Map.empty\<rparr>, [], [], 0, 0)
     = Some (Inr (ep, fb, episodic_results, feature_results, p, q))"
    by (auto simp: simulate_trials_def split: option.splits sum.splits)
  have "configured ?ep" by (simp add: configured_def)
  from trials_loop_same_recall [OF t this] show ?thesis by simp
qed

section \<open>Properties of the Stimulus Generator and the Game Assembler\<close>

lemma catalog_1_ok: "list_all2 row_ok full_item_set_1 full_dec_set_1"
  by code_simp

lemma catalog_2_ok: "list_all2 row_ok full_item_set_2 full_dec_set_2"
  by code_simp

lemma catalog_3_ok: "list_all2 row_ok full_item_set_3 full_dec_set_3"
  by code_simp

lemma catalog_4_ok: "list_all2 row_ok full_item_set_4 full_dec_set_4"
  by code_simp

lemma catalog_5_ok: "list_all2 row_ok full_item_set_5 full_dec_set_5"
  by code_simp

lemma catalog_lengths:
  "length full_item_set_1 = 8" "length full_item_set_2 = 8" "length full_item_set_3 = 8"
  "length full_item_set_4 = 8" "length full_item_set_5 = 8"
  by (simp_all add: full_item_set_1_def full_item_set_2_def full_item_set_3_def
      full_item_set_4_def full_item_set_5_def)

lemma catalog_ok:
  assumes "fis \<in> set catalog"
  shows "length (fst fis) = 8 \<and> length (snd fis) = 8 \<and> list_all2 row_ok (fst fis) (snd fis)"
proof -
  from assms have "length (fst fis) = 8 \<and> list_all2 row_ok (fst fis) (snd fis)"
    using catalog_1_ok catalog_2_ok catalog_3_ok catalog_4_ok catalog_5_ok catalog_lengths
    by (auto simp: catalog_def)
  then show ?thesis by (auto dest: list_all2_lengthD)
qed

lemma catalog_row_ok:
  "fis \<in> set catalog \<Longrightarrow> j < 8 \<Longrightarrow> row_ok (fst fis ! j) (snd fis ! j)"
  using catalog_ok [of fis] by (auto dest: list_all2_nthD)

lemma randint_1_5: "randint 1 5 r \<in> {1, 2, 3, 4, 5}"
proof -
  have "r mod 5 < 5" by simp
  then have "r mod 5 \<in> {0, 1, 2, 3, 4}" by auto
  then show ?thesis unfolding randint_def randbelow_def by auto
qed

lemma get_items_for_games_catalog:
  "\<exists>fis \<in> set catalog. get_items_for_games raw pos = (Inr fis, Suc pos)"
  using randint_1_5 [of "raw pos"]
  by (auto simp: get_items_for_games_def catalog_def Let_def)

lemma shuffle_length: "length (fst (shuffle x raw pos)) = length x"
  using shuffle_mset [of x raw pos] by (rule mset_eq_length)

lemma shuffle_set: "set (fst (shuffle x raw pos)) = set x"
  using shuffle_mset [of x raw pos] by (rule mset_eq_setD)

lemma games_loop_result:
  assumes "distinct js"
    and "\<forall>i \<in> set js. 1 \<le> i \<and> i - 1 < length ml \<and> i - 1 < length mt
           \<and> i - 1 < length (fst fis) \<and> i - 1 < length (snd fis)
           \<and> (ml ! (i - 1) = [''Category''] \<or> ml ! (i - 1) = [''Color''])"
  shows "games_loop js fis mt raw (ml, ga, pos) = None
       \<or> (\<exists>ml' new pos'. games_loop js fis mt raw (ml, ga, pos) = Some (Inr (ml', ga @ new, pos'))
             \<and> list_all2 (made_game fis raw) js new)"
  using assms
proof (induction js arbitrary: ml ga pos)
  case Nil
  then show ?case by simp
next
  case (Cons i rest)
  from Cons.prems have i: "1 \<le> i" "i - 1 < length ml" "i - 1 < length mt"
    "i - 1 < length (fst fis)" "i - 1 < length (snd fis)"
    and ax: "ml ! (i - 1) = [''Category''] \<or> ml ! (i - 1) = [''Color'']"
    and d: "distinct rest" "i \<notin> set rest" by simp_all
  let ?cur = "ml ! (i - 1) @ [mt ! (i - 1)]"
  let ?ml = "ml[i - 1 := ?cur]"
  let ?axis = "hd (ml ! (i - 1))"
  have cur: "?cur = [?axis, mt ! (i - 1)]" and axis: "?axis = ''Category'' \<or> ?axis = ''Color''"
    using ax by auto
  have inv: "\<forall>j \<in> set rest. 1 \<le> j \<and> j - 1 < length ?ml \<and> j - 1 < length mt
           \<and> j - 1 < length (fst fis) \<and> j - 1 < length (snd fis)
           \<and> (?ml ! (j - 1) = [''Category''] \<or> ?ml ! (j - 1) = [''Color''])"
  proof
    fix j assume j: "j \<in> set rest"
    with Cons.prems(2) have a: "1 \<le> j \<and> j - 1 < length ml \<and> j - 1 < length mt
           \<and> j - 1 < length (fst fis) \<and> j - 1 < length (snd fis)
           \<and> (ml ! (j - 1) = [''Category''] \<or> ml ! (j - 1) = [''Color''])" by simp
    from j d(2) have "j \<noteq> i" by auto
    with a i(1) have "j - 1 \<noteq> i - 1" by arith
    then have "?ml ! (j - 1) = ml ! (j - 1)" by simp
    with a show "1 \<le> j \<and> j - 1 < length ?ml \<and> j - 1 < length mt
           \<and> j - 1 < length (fst fis) \<and> j - 1 < length (snd fis)
           \<and> (?ml ! (j - 1) = [''Category''] \<or> ?ml ! (j - 1) = [''Color''])" by simp
  qed
  show ?case
  proof (cases "generate_values_set 6 raw pos")
    case None
    with i show ?thesis by (simp add: Let_def)
  next
    case (Some r)
    obtain vs q where r: "r = (vs, q)" by (cases r)
    let ?d = "create_game (int i) (fst fis ! (i - 1)) vs (options_for ?axis (snd fis ! (i - 1))) ?cur"
    have step: "games_loop (i # rest) fis mt raw (ml, ga, pos)
        = games_loop rest fis mt raw (?ml, ga @ [?d], q)"
      using i Some r ax by (auto simp: Let_def options_for_def)
    have made: "made_game fis raw i ?d"
      unfolding made_game_def cur using axis Some r by blast
    from Cons.IH [OF d(1) inv, of "ga @ [?d]" q]
    show ?thesis
    proof
      assume "games_loop rest fis mt raw (?ml, ga @ [?d], q) = None"
      with step show ?thesis by simp
    next
      assume "\<exists>ml' new pos'. games_loop rest fis mt raw (?ml, ga @ [?d], q)
                 = Some (Inr (ml', (ga @ [?d]) @ new, pos'))
             \<and> list_all2 (made_game fis raw) rest new"
      then obtain ml' new pos' where
        g: "games_loop rest fis mt raw (?ml, ga @ [?d], q) = Some (Inr (ml', (ga @ [?d]) @ new, pos'))"
        and l: "list_all2 (made_game fis raw) rest new" by blast
      from g step have "games_loop (i # rest) fis mt raw (ml, ga, pos)
          = Some (Inr (ml', ga @ (?d # new), pos'))" by simp
      moreover from made l have "list_all2 (made_game fis raw) (i # rest) (?d # new)" by simp
      ultimately show ?thesis by blast
    qed
  qed
qed

lemma fold_map_add_lookup:
  "fold (\<lambda>d acc. acc ++ d) ds m k = Some g \<Longrightarrow> m k = Some g \<or> (\<exists>d \<in> set ds. d k = Some g)"
proof (induction ds arbitrary: m)
  case Nil
  then show ?case by simp
next
  case (Cons d ds)
  from Cons.IH [of "m ++ d"] Cons.prems
  have "(m ++ d) k = Some g \<or> (\<exists>d \<in> set ds. d k = Some g)" by simp
  then show ?case by (auto simp: map_add_Some_iff)
qed

lemma fold_map_add_defined:
  "d \<in> set ds \<Longrightarrow> d k \<noteq> None \<Longrightarrow> fold (\<lambda>d acc. acc ++ d) ds m k \<noteq> None"
proof (induction ds arbitrary: m)
  case Nil
  then show ?case by simp
next
  case (Cons e ds)
  have keep: "fold (\<lambda>d acc. acc ++ d) ds m' k \<noteq> None" if "m' k \<noteq> None" for m'
    using that by (induction ds arbitrary: m') (auto simp: map_add_def split: option.splits)
  show ?case
  proof (cases "d = e")
    case True
    with Cons.prems(2) have "(m ++ e) k \<noteq> None" by (auto simp: map_add_def split: option.splits)
    from keep [of "m ++ e", OF this] show ?thesis by simp
  next
    case False
    with Cons.prems(1) have "d \<in> set ds" by simp
    from Cons.IH [OF this Cons.prems(2)] show ?thesis by simp
  qed
qed

lemma upt_1_9: "[1..<8 + 1] = [1, 2, 3, 4, 5, 6, 7, 8]"
  by (simp add: upt_conv_Cons)

lemma initialize_games_result:
  "initialize_games 8 raw pos = None
   \<or> (\<exists>fis \<in> set catalog. \<exists>new pos'.
         initialize_games 8 raw pos
           = Some (Inr (fold (\<lambda>d games_object. games_object ++ d) new Map.empty, pos'))
         \<and> list_all2 (made_game fis raw) [1..<8 + 1] new)"
proof -
  from get_items_for_games_catalog [of raw pos] obtain fis where
    fis: "fis \<in> set catalog" and g: "get_items_for_games raw pos = (Inr fis, Suc pos)" by blast
  obtain ml pos2 where ml: "shuffle multiplier_list_initial raw (Suc pos) = (ml, pos2)"
    by (cases "shuffle multiplier_list_initial raw (Suc pos)")
  obtain mts pos3 where mts: "shuffle multiplier_time_initial raw pos2 = (mts, pos3)"
    by (cases "shuffle multiplier_time_initial raw pos2")
  from shuffle_length [of multiplier_list_initial raw "Suc pos"]
    shuffle_set [of multiplier_list_initial raw "Suc pos"] ml
  have ml_len: "length ml = 8" and ml_set: "set ml = {[''Category''], [''Color'']}"
    by (auto simp: multiplier_list_initial_def)
  from shuffle_length [of multiplier_time_initial raw pos2]
    shuffle_set [of multiplier_time_initial raw pos2] mts
  have "length mts = 2" and mts_set: "set mts = set multiplier_time_initial"
    by (simp_all add: multiplier_time_initial_def)
  then have "mts ! 0 \<in> set multiplier_time_initial" by (metis nth_mem zero_less_numeral)
  then have mt_len: "length (mts ! 0) = 8" by (auto simp: multiplier_time_initial_def)
  have inv: "\<forall>i \<in> set [1..<8 + 1]. 1 \<le> i \<and> i - 1 < length ml \<and> i - 1 < length (mts ! 0)
           \<and> i - 1 < length (fst fis) \<and> i - 1 < length (snd fis)
           \<and> (ml ! (i - 1) = [''Category''] \<or> ml ! (i - 1) = [''Color''])"
  proof
    fix i :: nat assume "i \<in> set [1..<8 + 1]"
    then have i: "1 \<le> i" "i - 1 < 8" by auto
    with ml_len have "ml ! (i - 1) \<in> set ml" by simp
    with ml_set have "ml ! (i - 1) = [''Category''] \<or> ml ! (i - 1) = [''Color'']" by simp
    with i ml_len mt_len catalog_ok [OF fis]
    show "1 \<le> i \<and> i - 1 < length ml \<and> i - 1 < length (mts ! 0)
           \<and> i - 1 < length (fst fis) \<and> i - 1 < length (snd fis)
           \<and> (ml ! (i - 1) = [''Category''] \<or> ml ! (i - 1) = [''Color''])" by simp
  qed
  have "distinct [1..<8 + 1 :: nat]" by simp
  from games_loop_result [OF this inv, of raw "[]" pos3]
  show ?thesis
  proof
    assume "games_loop [1..<8 + 1] fis (mts ! 0) raw (ml, [], pos3) = None"
    then show ?thesis by (simp add: initialize_games_def g ml mts)
  next
    assume "\<exists>ml' new pos'. games_loop [1..<8 + 1] fis (mts ! 0) raw (ml, [], pos3)
                = Some (Inr (ml', [] @ new, pos'))
             \<and> list_all2 (made_game fis raw) [1..<8 + 1] new"
    then obtain ml' new pos' where
      "games_loop [1..<8 + 1] fis (mts ! 0) raw (ml, [], pos3) = Some (Inr (ml', new, pos'))"
      and l: "list_all2 (made_game fis raw) [1..<8 + 1] new" by auto
    then have "initialize_games 8 raw pos
           = Some (Inr (fold (\<lambda>d games_object. games_object ++ d) new Map.empty, pos'))"
      by (simp add: initialize_games_def g ml mts)
    with fis l show ?thesis by blast
  qed
qed

lemma initialize_games_no_error: "initialize_games 8 raw pos \<noteq> Some (Inl e)"
  using initialize_games_result [of raw pos] by auto

lemma made_game_catalog_game:
  assumes "fis \<in> set catalog" and "1 \<le> i" and "i \<le> 8" and "made_game fis raw i d"
  shows "d (str (int i)) \<noteq> None \<and> (\<forall>k g. d k = Some g \<longrightarrow> catalog_game raw g)"
proof -
  from assms(4) obtain vs axis time p p' where
    d: "d = create_game (int i) (fst fis ! (i - 1)) vs (options_for axis (snd fis ! (i - 1)))
              [axis, time]"
    and a: "axis = ''Category'' \<or> axis = ''Color''"
    and v: "generate_values_set 6 raw p = Some (vs, p')"
    unfolding made_game_def by blast
  from assms(2,3) have j: "i - 1 < 8" by simp
  have "catalog_game raw \<lparr>Pairs = fst fis ! (i - 1), Values = vs,
          Options = options_for axis (snd fis ! (i - 1)), Multiplier = [axis, time]\<rparr>"
    unfolding catalog_game_def using assms(1) j a v by blast
  then show ?thesis unfolding d create_game_def by (auto split: if_splits)
qed

lemma initialize_games_games:
  assumes "initialize_games 8 raw pos = Some (Inr (games, pos'))"
  shows "(\<forall>k g. games k = Some g \<longrightarrow> catalog_game raw g)
       \<and> (\<forall>i \<in> {1..8 :: nat}. games (str (int i)) \<noteq> None)"
proof -
  from initialize_games_result [of raw pos] assms obtain fis new where
    fis: "fis \<in> set catalog"
    and games: "games = fold (\<lambda>d games_object. games_object ++ d) new Map.empty"
    and l: "list_all2 (made_game fis raw) [1..<8 + 1] new" by auto
  have each: "\<exists>i. 1 \<le> i \<and> i \<le> 8 \<and> made_game fis raw i d" if "d \<in> set new" for d
  proof -
    from that obtain n where "n < length new" "new ! n = d" by (auto simp: in_set_conv_nth)
    with l have "made_game fis raw ([1..<8 + 1] ! n) d" "n < 8"
      by (auto dest: list_all2_nthD2 list_all2_lengthD)
    then show ?thesis by (intro exI [of _ "Suc n"]) simp
  qed
  have a: "\<forall>k g. games k = Some g \<longrightarrow> catalog_game raw g"
  proof (intro allI impI)
    fix k g assume "games k = Some g"
    with fold_map_add_lookup [of new Map.empty k g] games
    obtain d where "d \<in> set new" "d k = Some g" by auto
    with each [of d] made_game_catalog_game [OF fis] show "catalog_game raw g" by blast
  qed
  have b: "\<forall>i \<in> {1..8 :: nat}. games (str (int i)) \<noteq> None"
  proof
    fix i :: nat assume i: "i \<in> {1..8}"
    then have n: "i - 1 < 8" "[1..<8 + 1] ! (i - 1) = i" by (auto simp: nth_upt)
    with l have "i - 1 < length new" by (auto dest: list_all2_lengthD)
    with l n have m: "made_game fis raw i (new ! (i - 1))" "new ! (i - 1) \<in> set new"
      by (auto dest: list_all2_nthD2)
    from made_game_catalog_game [OF fis _ _ m(1)] i
    have "(new ! (i - 1)) (str (int i)) \<noteq> None" by simp
    from fold_map_add_defined [OF m(2) this] show "games (str (int i)) \<noteq> None"
      by (simp add: games)
  qed
  from a b show ?thesis ..
qed

lemma accept_from_block_at:
  "generate_random_sub_array 6 (accept_from raw pos) (pos + 6 * k)
     = Some ([2, 1, - 1, - 1, - 2, 1], pos + 6 * k + 6)"
proof -
  have e: "accept_from raw pos (pos + 6 * k + i) = [4, 3, 1, 1, 0, 3] ! (i mod 6)" for i
    by (simp add: accept_from_def)
  have v: "map (\<lambda>i. randint (- 2) 2 (accept_from raw pos (pos + 6 * k + i))) [0..<6]
      = [2, 1, - 1, - 1, - 2, 1]"
    unfolding e by (simp add: upt_six randint_m2_2_values)
  have "\<And>i. i < 6 \<Longrightarrow> randint (- 2) 2 (accept_from raw pos (pos + 6 * k + i)) \<noteq> 0"
  proof -
    fix i :: nat assume "i < 6"
    then have "i \<in> {0, 1, 2, 3, 4, 5}" by auto
    then show "randint (- 2) 2 (accept_from raw pos (pos + 6 * k + i)) \<noteq> 0"
      unfolding e by (auto simp: randint_m2_2_values)
  qed
  from sub_array_loop_all_hits [of 6 "accept_from raw pos" "pos + 6 * k" "[]", OF this] v
  show ?thesis by (simp add: generate_random_sub_array_def)
qed

lemma generate_values_set_accept_from_at:
  "generate_values_set 6 (accept_from raw pos) (pos + 6 * k)
     = Some ([2, 1, - 1, - 1, - 2, 1], pos + 6 * Suc k)"
  using generate_values_set_accept [OF accept_from_block_at is_valid_accepted, of raw pos k]
  by simp

lemma games_loop_returns:
  assumes "\<forall>i \<in> set js. i - 1 < length ml \<and> i - 1 < length mt
           \<and> i - 1 < length (fst fis) \<and> i - 1 < length (snd fis)"
  shows "games_loop js fis mt (accept_from raw p0) (ml, ga, p0 + 6 * k) \<noteq> None"
  using assms
proof (induction js arbitrary: ml ga k)
  case Nil
  then show ?case by simp
next
  case (Cons i rest)
  let ?ml = "ml[i - 1 := ml ! (i - 1) @ [mt ! (i - 1)]]"
  from Cons.prems have "\<forall>j \<in> set rest. j - 1 < length ?ml \<and> j - 1 < length mt
           \<and> j - 1 < length (fst fis) \<and> j - 1 < length (snd fis)" by simp
  from Cons.IH [OF this, of _ "Suc k"] Cons.prems show ?case
    by (simp add: Let_def generate_values_set_accept_from_at)
qed

lemma shuffle_loop_position: "snd (shuffle_loop i x raw pos) = pos + i"
  by (induction i arbitrary: x pos) (simp_all add: Let_def)

lemma shuffle_position: "snd (shuffle x raw pos) = pos + (length x - 1)"
  by (simp add: shuffle_def shuffle_loop_position)

lemma initialize_games_witness_returns:
  "\<exists>games pos'. initialize_games 8 witness_raw 0 = Some (Inr (games, pos'))"
proof -
  let ?raw = "accept_from (\<lambda>i. 0) 9"
  from get_items_for_games_catalog [of ?raw 0] obtain fis where
    fis: "fis \<in> set catalog" and g: "get_items_for_games ?raw 0 = (Inr fis, Suc 0)" by blast
  obtain ml pos2 where ml: "shuffle multiplier_list_initial ?raw (Suc 0) = (ml, pos2)"
    by (cases "shuffle multiplier_list_initial ?raw (Suc 0)")
  obtain mts pos3 where mts: "shuffle multiplier_time_initial ?raw pos2 = (mts, pos3)"
    by (cases "shuffle multiplier_time_initial ?raw pos2")
  from shuffle_position [of multiplier_list_initial ?raw "Suc 0"] ml
  have "pos2 = 8" by (simp add: multiplier_list_initial_def)
  with shuffle_position [of multiplier_time_initial ?raw pos2] mts
  have pos3: "pos3 = 9 + 6 * 0" by (simp add: multiplier_time_initial_def)
  from shuffle_length [of multiplier_list_initial ?raw "Suc 0"] ml
  have ml_len: "length ml = 8" by (simp add: multiplier_list_initial_def)
  from shuffle_length [of multiplier_time_initial ?raw pos2]
    shuffle_set [of multiplier_time_initial ?raw pos2] mts
  have "length mts = 2" and mts_set: "set mts = set multiplier_time_initial"
    by (simp_all add: multiplier_time_initial_def)
  then have "mts ! 0 \<in> set multiplier_time_initial" by (metis nth_mem zero_less_numeral)
  then have mt_len: "length (mts ! 0) = 8" by (auto simp: multiplier_time_initial_def)
  have "\<forall>i \<in> set [1..<8 + 1]. i - 1 < length ml \<and> i - 1 < length (mts ! 0)
           \<and> i - 1 < length (fst fis) \<and> i - 1 < length (snd fis)"
    using ml_len mt_len catalog_ok [OF fis] by auto
  from games_loop_returns [OF this, of "\<lambda>i. 0" 9 "[]" 0]
  have "games_loop [1..<8 + 1] fis (mts ! 0) ?raw (ml, [], pos3) \<noteq> None"
    unfolding pos3 .
  then have "initialize_games 8 ?raw 0 \<noteq> None"
    by (auto simp: initialize_games_def g ml mts split: option.splits sum.splits)
  with initialize_games_no_error [of ?raw 0] show ?thesis
    unfolding witness_raw_def by (cases "initialize_games 8 ?raw 0") (auto, metis sum.exhaust surj_pair)
qed

lemma catalog_game_options:
  assumes "catalog_game raw g"
  shows "length (Options g) = 3
       \<and> (Multiplier g ! 0 = ''Category'' \<or> Multiplier g ! 0 = ''Color'')
       \<and> (Multiplier g ! 0 = ''Category'' \<longrightarrow>
            (\<forall>w \<in> set [''Red'', ''Yellow'', ''Blue'', ''Green'']. w \<notin> set (Options g)))
       \<and> (Multiplier g ! 0 = ''Color'' \<longrightarrow>
            (\<forall>w \<in> set [''Food'', ''Animal'', ''Object'', ''Scene'']. w \<notin> set (Options g)))"
proof -
  from assms obtain fis j axis time vs where fis: "fis \<in> set catalog" and j: "j < 8"
    and g: "g = \<lparr>Pairs = fst fis ! j, Values = vs, Options = options_for axis (snd fis ! j),
             Multiplier = [axis, time]\<rparr>"
    and a: "axis = ''Category'' \<or> axis = ''Color''"
    unfolding catalog_game_def by blast
  from catalog_row_ok [OF fis j] have "length (options_for axis (snd fis ! j)) = 3"
    by (simp add: row_ok_def options_for_def)
  with a show ?thesis unfolding g by (auto simp: options_for_def)
qed

text \<open>
  C2, as amended. \<^verbatim>\<open>initialize_games(8)\<close> raises no error, and for every game of a
  table it returns, the \<^verbatim>\<open>Options\<close> list has length 3 (the six decision words of
  the row less the three of the other axis), the multiplier axis is \<open>Category\<close> or
  \<open>Color\<close>, and the list contains no colour word when the axis is \<open>Category\<close> and no
  category word when the axis is \<open>Color\<close>.
\<close>

theorem initialize_games_options:
  "initialize_games 8 raw pos \<noteq> Some (Inl e)
   \<and> (\<forall>games pos' k g. initialize_games 8 raw pos = Some (Inr (games, pos')) \<and> games k = Some g \<longrightarrow>
         length (Options g) = 3
       \<and> (Multiplier g ! 0 = ''Category'' \<or> Multiplier g ! 0 = ''Color'')
       \<and> (Multiplier g ! 0 = ''Category'' \<longrightarrow>
            (\<forall>w \<in> set [''Red'', ''Yellow'', ''Blue'', ''Green'']. w \<notin> set (Options g)))
       \<and> (Multiplier g ! 0 = ''Color'' \<longrightarrow>
            (\<forall>w \<in> set [''Food'', ''Animal'', ''Object'', ''Scene'']. w \<notin> set (Options g))))"
proof (rule conjI)
  show "initialize_games 8 raw pos \<noteq> Some (Inl e)" by (rule initialize_games_no_error)
next
  have "length (Options g) = 3
       \<and> (Multiplier g ! 0 = ''Category'' \<or> Multiplier g ! 0 = ''Color'')
       \<and> (Multiplier g ! 0 = ''Category'' \<longrightarrow>
            (\<forall>w \<in> set [''Red'', ''Yellow'', ''Blue'', ''Green'']. w \<notin> set (Options g)))
       \<and> (Multiplier g ! 0 = ''Color'' \<longrightarrow>
            (\<forall>w \<in> set [''Food'', ''Animal'', ''Object'', ''Scene'']. w \<notin> set (Options g)))"
    if "initialize_games 8 raw pos = Some (Inr (games, pos')) \<and> games k = Some g"
    for games pos' k g
  proof -
    from that initialize_games_games [of raw pos games pos'] have "catalog_game raw g" by blast
    then show ?thesis by (rule catalog_game_options)
  qed
  then show "\<forall>games pos' k g.
       initialize_games 8 raw pos = Some (Inr (games, pos')) \<and> games k = Some g \<longrightarrow>
         length (Options g) = 3
       \<and> (Multiplier g ! 0 = ''Category'' \<or> Multiplier g ! 0 = ''Color'')
       \<and> (Multiplier g ! 0 = ''Category'' \<longrightarrow>
            (\<forall>w \<in> set [''Red'', ''Yellow'', ''Blue'', ''Green'']. w \<notin> set (Options g)))
       \<and> (Multiplier g ! 0 = ''Color'' \<longrightarrow>
            (\<forall>w \<in> set [''Food'', ''Animal'', ''Object'', ''Scene'']. w \<notin> set (Options g)))"
    by blast
qed

lemma str_1: "str 1 = ''1''"
  by (simp add: str_def str_nat.simps)

lemma initialize_games_game_1:
  assumes "initialize_games 8 raw pos = Some (Inr (games, pos'))"
  shows "\<exists>g. games ''1'' = Some g \<and> catalog_game raw g"
proof -
  from initialize_games_games [OF assms, THEN conjunct2, rule_format, of 1]
  have "games ''1'' \<noteq> None" by (simp add: str_1)
  with initialize_games_games [OF assms] show ?thesis by blast
qed

theorem initialize_games_options_witness:
  "\<exists>games pos' g. initialize_games 8 witness_raw 0 = Some (Inr (games, pos'))
     \<and> games ''1'' = Some g \<and> length (Options g) = 3"
proof -
  from initialize_games_witness_returns obtain games pos' where
    i: "initialize_games 8 witness_raw 0 = Some (Inr (games, pos'))" by blast
  from initialize_games_game_1 [OF i] obtain g where g: "games ''1'' = Some g" by blast
  from initialize_games_options [of witness_raw 0, THEN conjunct2, rule_format, of games pos' "''1''" g]
    i g
  show ?thesis by blast
qed

text \<open>
  C2 as stated fails on the length: in the table of a concrete run, the option list of
  game 1 has 3 entries, not 6.
\<close>

theorem initialize_games_options_counterexample:
  "options_length (initialize_games 8 witness_raw 0) ''1'' = Some 3"
proof -
  from initialize_games_witness_returns obtain games pos' where
    i: "initialize_games 8 witness_raw 0 = Some (Inr (games, pos'))" by blast
  from initialize_games_game_1 [OF i] obtain g where g: "games ''1'' = Some g"
    and "catalog_game witness_raw g" by blast
  from catalog_game_options [OF this(2)] i g show ?thesis by (simp add: options_length_def)
qed

lemma generate_values_set_length:
  assumes "generate_values_set 6 raw pos = Some (vs, pos')"
  shows "length vs = 6"
proof -
  from generate_values_set_accepts [OF assms] obtain q
    where "generate_random_sub_array 6 raw q = Some (vs, pos')" by blast
  then show ?thesis
    using sub_array_loop_result [of 6 "[]" raw q vs pos']
    by (simp add: generate_random_sub_array_def)
qed

lemma true_values_update_two:
  assumes "a \<noteq> b"
  shows "true_values_update tv [a, b] opts r F =
     (if F \<in> set opts \<and> (F = a \<or> F = b)
      then Some ((case tv F of None \<Rightarrow> 0 | Some x \<Rightarrow> x) + r) else tv F)"
  using assms by (auto simp: Let_def split: option.splits)

lemma pairs_loop_result:
  assumes "\<forall>i \<in> set js. i < length pairs \<and> i < length vals
             \<and> (\<exists>a b. split_on CHR ''_'' (pairs ! i) = [a, b] \<and> a \<noteq> b)"
  shows "\<exists>tv' eps'. pairs_loop js pairs vals opts (tv, eps) = Inr (tv', eps')
       \<and> (\<forall>F. tv' F =
             (if F \<in> set opts \<and> (\<exists>i \<in> set js. F \<in> set (split_on CHR ''_'' (pairs ! i)))
              then Some ((case tv F of None \<Rightarrow> 0 | Some x \<Rightarrow> x)
                         + (\<Sum>i\<leftarrow>js. if F \<in> set (split_on CHR ''_'' (pairs ! i))
                                     then vals ! i else 0))
              else tv F))"
  using assms
proof (induction js arbitrary: tv eps)
  case Nil
  then show ?case by simp
next
  case (Cons i rest)
  from Cons.prems obtain a b where i: "i < length pairs" "i < length vals"
    and ab: "split_on CHR ''_'' (pairs ! i) = [a, b]" "a \<noteq> b" by auto
  from Cons.prems have r: "\<forall>i \<in> set rest. i < length pairs \<and> i < length vals
             \<and> (\<exists>a b. split_on CHR ''_'' (pairs ! i) = [a, b] \<and> a \<noteq> b)" by simp
  let ?tv = "true_values_update tv [a, b] opts (vals ! i)"
  let ?eps = "eps @ [((a, b), vals ! i)]"
  have step: "pairs_loop (i # rest) pairs vals opts (tv, eps)
      = pairs_loop rest pairs vals opts (?tv, ?eps)"
    using i ab by (simp add: Let_def del: true_values_update.simps)
  from Cons.IH [OF r, of ?tv ?eps] obtain tv' eps' where
    res: "pairs_loop rest pairs vals opts (?tv, ?eps) = Inr (tv', eps')"
    and tv': "\<forall>F. tv' F =
             (if F \<in> set opts \<and> (\<exists>i \<in> set rest. F \<in> set (split_on CHR ''_'' (pairs ! i)))
              then Some ((case ?tv F of None \<Rightarrow> 0 | Some x \<Rightarrow> x)
                         + (\<Sum>i\<leftarrow>rest. if F \<in> set (split_on CHR ''_'' (pairs ! i))
                                     then vals ! i else 0))
              else ?tv F)" by blast
  have no: "(\<Sum>i\<leftarrow>rest. if F \<in> set (split_on CHR ''_'' (pairs ! i)) then vals ! i else 0) = 0"
    if "\<not> (\<exists>i \<in> set rest. F \<in> set (split_on CHR ''_'' (pairs ! i)))" for F
    using that by (induction rest) auto
  have "\<forall>F. tv' F =
             (if F \<in> set opts \<and> (\<exists>i \<in> set (i # rest). F \<in> set (split_on CHR ''_'' (pairs ! i)))
              then Some ((case tv F of None \<Rightarrow> 0 | Some x \<Rightarrow> x)
                         + (\<Sum>i\<leftarrow>i # rest. if F \<in> set (split_on CHR ''_'' (pairs ! i))
                                     then vals ! i else 0))
              else tv F)"
  proof
    fix F
    show "tv' F =
             (if F \<in> set opts \<and> (\<exists>i \<in> set (i # rest). F \<in> set (split_on CHR ''_'' (pairs ! i)))
              then Some ((case tv F of None \<Rightarrow> 0 | Some x \<Rightarrow> x)
                         + (\<Sum>i\<leftarrow>i # rest. if F \<in> set (split_on CHR ''_'' (pairs ! i))
                                     then vals ! i else 0))
              else tv F)"
    proof (cases "\<exists>i \<in> set rest. F \<in> set (split_on CHR ''_'' (pairs ! i))")
      case True
      with tv' [rule_format, of F] show ?thesis
        by (auto simp: true_values_update_two [OF ab(2)] ab(1) split: option.splits
                 simp del: true_values_update.simps)
    next
      case False
      with tv' [rule_format, of F] no [OF False] show ?thesis
        by (auto simp: true_values_update_two [OF ab(2)] ab(1) split: option.splits
                 simp del: true_values_update.simps)
    qed
  qed
  with step res show ?case by auto
qed

lemma zip_as_index_map:
  "length xs = length ys \<Longrightarrow> zip xs ys = map (\<lambda>i. (xs ! i, ys ! i)) [0..<length xs]"
  by (rule nth_equalityI) simp_all

lemma sum_filter_fst:
  "sum_list (map snd (filter (\<lambda>(item, v). P item) xs))
     = (\<Sum>e\<leftarrow>xs. if P (fst e) then snd e else (0 :: int))"
  by (induction xs) auto

lemma recomputed_value_index_sum:
  assumes "length pairs = length vals"
  shows "recomputed_value F pairs vals
       = (\<Sum>i\<leftarrow>[0..<length pairs]. if F \<in> set (split_on CHR ''_'' (pairs ! i))
                                     then vals ! i else 0)"
proof -
  have "recomputed_value F pairs vals
      = (\<Sum>e\<leftarrow>zip pairs vals. if F \<in> set (split_on CHR ''_'' (fst e)) then snd e else 0)"
    unfolding recomputed_value_def by (rule sum_filter_fst)
  also have "\<dots> = (\<Sum>i\<leftarrow>[0..<length pairs]. if F \<in> set (split_on CHR ''_'' (pairs ! i))
                                     then vals ! i else 0)"
    unfolding zip_as_index_map [OF assms] by (simp add: comp_def cong: if_cong)
  finally show ?thesis .
qed

lemma row_ok_items:
  assumes "row_ok items dec" and "i < length items"
  shows "\<exists>a b. split_on CHR ''_'' (items ! i) = [a, b] \<and> a \<noteq> b"
proof -
  from assms have "case split_on CHR ''_'' (items ! i) of [a, b] \<Rightarrow> a \<noteq> b | _ \<Rightarrow> False"
    by (simp add: row_ok_def list_all_length)
  then show ?thesis by (auto split: list.splits)
qed

lemma row_ok_options:
  assumes "row_ok items dec" and "f \<in> set (options_for axis dec)"
  shows "\<exists>i \<in> set [0..<length items]. f \<in> set (split_on CHR ''_'' (items ! i))"
proof -
  from assms(2) have "f \<in> set dec" by (auto simp: options_for_def split: if_splits)
  with assms(1) have "list_ex (\<lambda>item. f \<in> set (split_on CHR ''_'' item)) items"
    by (simp add: row_ok_def list_all_iff)
  then obtain item where "item \<in> set items" "f \<in> set (split_on CHR ''_'' item)"
    by (auto simp: list_ex_iff)
  then show ?thesis by (auto simp: in_set_conv_nth)
qed

lemma catalog_game_true_values:
  assumes "catalog_game raw g"
  shows "\<exists>tv eps. pairs_loop [0..<length (Pairs g)] (Pairs g) (Values g) (Options g) (Map.empty, [])
            = Inr (tv, eps)
       \<and> (\<forall>f \<in> set (Options g). tv f = Some (recomputed_value f (Pairs g) (Values g)))
       \<and> length (Options g) = 3"
proof -
  from assms obtain fis j axis time vs p p' where fis: "fis \<in> set catalog" and j: "j < 8"
    and g: "g = \<lparr>Pairs = fst fis ! j, Values = vs, Options = options_for axis (snd fis ! j),
             Multiplier = [axis, time]\<rparr>"
    and v: "generate_values_set 6 raw p = Some (vs, p')"
    unfolding catalog_game_def by blast
  let ?items = "fst fis ! j"
  let ?opts = "options_for axis (snd fis ! j)"
  note ok = catalog_row_ok [OF fis j]
  from ok have li: "length ?items = 6" by (simp add: row_ok_def)
  from generate_values_set_length [OF v] have lv: "length vs = 6" .
  have "\<forall>i \<in> set [0..<length ?items]. i < length ?items \<and> i < length vs
             \<and> (\<exists>a b. split_on CHR ''_'' (?items ! i) = [a, b] \<and> a \<noteq> b)"
    using row_ok_items [OF ok] li lv by simp
  from pairs_loop_result [OF this, of ?opts Map.empty "[]"] obtain tv eps where
    r: "pairs_loop [0..<length ?items] ?items vs ?opts (Map.empty, []) = Inr (tv, eps)"
    and tv: "\<forall>F. tv F =
             (if F \<in> set ?opts
                 \<and> (\<exists>i \<in> set [0..<length ?items]. F \<in> set (split_on CHR ''_'' (?items ! i)))
              then Some (0 + (\<Sum>i\<leftarrow>[0..<length ?items].
                                 if F \<in> set (split_on CHR ''_'' (?items ! i)) then vs ! i else 0))
              else None)" by auto
  have "\<forall>f \<in> set ?opts. tv f = Some (recomputed_value f ?items vs)"
  proof
    fix f assume f: "f \<in> set ?opts"
    from row_ok_options [OF ok f] f tv [rule_format, of f]
    show "tv f = Some (recomputed_value f ?items vs)"
      by (simp add: recomputed_value_index_sum li lv)
  qed
  moreover from assms have "length (Options g) = 3" by (simp add: catalog_game_options)
  ultimately show ?thesis using r unfolding g by simp
qed

lemma decisions_loop_rows:
  assumes "0 \<le> recall_noise ep" and "\<forall>f \<in> set opts. tv f = Some (val f)"
  shows "\<exists>er fr p'. decisions_loop opts ep fb tv gn np (ers, frs, p)
            = Inr (ers @ er, frs @ fr, p')
       \<and> map feature er = opts \<and> map feature fr = opts
       \<and> (\<forall>row \<in> set er \<union> set fr. true_value row = val (feature row))"
  using assms(2)
proof (induction opts arbitrary: ers frs p)
  case Nil
  show ?case by simp
next
  case (Cons feat rest)
  from decide_returns [OF assms(1), of "(feat, '''')" np p] obtain c t k v pos1 where
    d: "EpisodicModel_decide ep (feat, '''') np p = Inr ((c, t, k, v), pos1)"
    by (metis prod_cases4 surj_pair)
  from Cons.prems have x: "tv feat = Some (val feat)"
    and r: "\<forall>f \<in> set rest. tv f = Some (val f)" by simp_all
  obtain c2 t2 pos2 where f: "FeatureBasedModel_decide fb (feat, '''') np pos1 = ((c2, t2), pos2)"
    by (metis surj_pair)
  let ?er = "\<lparr>model = ''episodic'', feature = feat, choice = c, rt = t,
              n_memories = Some k, true_value = val feat, recalled_value = v, game_number = gn\<rparr>"
  let ?fr = "\<lparr>model = ''feature'', feature = feat, choice = c2, rt = real_of_int t2,
              n_memories = None, true_value = val feat, recalled_value = v, game_number = gn\<rparr>"
  have step: "decisions_loop (feat # rest) ep fb tv gn np (ers, frs, p)
      = decisions_loop rest ep fb tv gn np (ers @ [?er], frs @ [?fr], pos2)"
    using d x f by simp
  from Cons.IH [OF r, of "ers @ [?er]" "frs @ [?fr]" pos2] obtain er fr p' where
    res: "decisions_loop rest ep fb tv gn np (ers @ [?er], frs @ [?fr], pos2)
            = Inr ((ers @ [?er]) @ er, (frs @ [?fr]) @ fr, p')"
    and m: "map feature er = rest" "map feature fr = rest"
    and t: "\<forall>row \<in> set er \<union> set fr. true_value row = val (feature row)" by blast
  from step res have a: "decisions_loop (feat # rest) ep fb tv gn np (ers, frs, p)
            = Inr (ers @ (?er # er), frs @ (?fr # fr), p')" by simp
  from m have b: "map feature (?er # er) = feat # rest" "map feature (?fr # fr) = feat # rest"
    by simp_all
  from t have c: "\<forall>row \<in> set (?er # er) \<union> set (?fr # fr). true_value row = val (feature row)"
    by auto
  show ?case
  proof (intro exI conjI)
    show "decisions_loop (feat # rest) ep fb tv gn np (ers, frs, p)
            = Inr (ers @ (?er # er), frs @ (?fr # fr), p')" by (rule a)
  qed (use b c in simp_all)
qed

lemma encode_both_recall_noise:
  "recall_noise (fst (encode_both eps (ep, fb))) = recall_noise ep"
  by (induction eps arbitrary: ep fb) (auto simp: EpisodicModel_encode_def)

lemma randint_1_8: "\<exists>i \<in> {1..8 :: nat}. randint 1 8 r = int i"
proof -
  have "r mod 8 < 8" by simp
  then have "Suc (r mod 8) \<in> {1..8}" by simp
  moreover have "randint 1 8 r = int (Suc (r mod 8))" by (simp add: randint_def randbelow_def)
  ultimately show ?thesis by blast
qed

lemma run_trial_result:
  assumes init: "initialize_games 8 raw pos = Some (Inr (games, pos1))"
    and noise: "0 \<le> recall_noise ep"
  shows "\<exists>g ep' fb' er fr q'.
       games (str (randint 1 8 (raw pos1))) = Some g
     \<and> run_trial raw np (ep, fb, ers, frs, pos, q)
         = Some (Inr (ep', fb', ers @ er, frs @ fr, Suc pos1, q'))
     \<and> length er = 3 \<and> length fr = 3
     \<and> map feature er = Options g \<and> map feature fr = Options g
     \<and> (\<forall>row \<in> set er \<union> set fr.
           true_value row = recomputed_value (feature row) (Pairs g) (Values g))"
proof -
  from randint_1_8 [of "raw pos1"] obtain i :: nat where
    i: "i \<in> {1..8}" "randint 1 8 (raw pos1) = int i" by blast
  with initialize_games_games [OF init] obtain g where
    g: "games (str (randint 1 8 (raw pos1))) = Some g" and cg: "catalog_game raw g"
    by (metis option.exhaust)
  from catalog_game_true_values [OF cg] obtain tv eps where
    pl: "pairs_loop [0..<length (Pairs g)] (Pairs g) (Values g) (Options g) (Map.empty, [])
            = Inr (tv, eps)"
    and tv: "\<forall>f \<in> set (Options g). tv f = Some (recomputed_value f (Pairs g) (Values g))"
    and len: "length (Options g) = 3" by blast
  obtain ep' fb' where
    enc: "encode_both eps (ep\<lparr>episodes := []\<rparr>, fb\<lparr>feature_values := Map.empty\<rparr>) = (ep', fb')"
    by (metis surj_pair)
  from encode_both_recall_noise [of eps "ep\<lparr>episodes := []\<rparr>" "fb\<lparr>feature_values := Map.empty\<rparr>"]
    enc noise
  have n': "0 \<le> recall_noise ep'" by simp
  from decisions_loop_rows [OF n' tv, of fb' "randint 1 8 (raw pos1)" np ers frs q]
  obtain er fr q' where
    dl: "decisions_loop (Options g) ep' fb' tv (randint 1 8 (raw pos1)) np (ers, frs, q)
            = Inr (ers @ er, frs @ fr, q')"
    and m: "map feature er = Options g" "map feature fr = Options g"
    and t: "\<forall>row \<in> set er \<union> set fr.
           true_value row = recomputed_value (feature row) (Pairs g) (Values g)" by blast
  from m len have l: "length er = 3" "length fr = 3" by (metis length_map)+
  have "run_trial raw np (ep, fb, ers, frs, pos, q)
         = Some (Inr (ep', fb', ers @ er, frs @ fr, Suc pos1, q'))"
    by (simp add: run_trial_def init g pl enc dl Let_def)
  with g l m t show ?thesis by blast
qed

lemma simulate_one_trial:
  "(initialize_games 8 raw 0 = None \<longrightarrow> simulate_trials 1 raw np = None)
   \<and> (\<forall>games pos. initialize_games 8 raw 0 = Some (Inr (games, pos)) \<longrightarrow>
        (\<exists>g er fr. games (str (randint 1 8 (raw pos))) = Some g
           \<and> simulate_trials 1 raw np = Some (Inr (er, fr))
           \<and> length er = 3 \<and> length fr = 3
           \<and> map feature er = Options g \<and> map feature fr = Options g
           \<and> (\<forall>row \<in> set er \<union> set fr.
                 true_value row = recomputed_value (feature row) (Pairs g) (Values g))))"
proof (intro conjI allI impI)
  assume "initialize_games 8 raw 0 = None"
  then show "simulate_trials 1 raw np = None"
    by (simp add: simulate_trials_def run_trial_def)
next
  fix games pos
  assume init: "initialize_games 8 raw 0 = Some (Inr (games, pos))"
  let ?ep = "\<lparr>non_decision_time = 3 / 2, recall_time = 1 / 2, recall_noise = 1 / 2,
              p_stop = 1 / 10, max_decision_time = 15 / 2, episodes = []\<rparr>"
  let ?fb = "\<lparr>beta = 5, feature_values = Map.empty\<rparr>"
  have "0 \<le> recall_noise ?ep" by simp
  from run_trial_result [OF init this, of np ?fb "[]" "[]" 0]
  obtain g ep' fb' er fr q' where
    g: "games (str (randint 1 8 (raw pos))) = Some g"
    and r: "run_trial raw np (?ep, ?fb, [], [], 0, 0) = Some (Inr (ep', fb', er, fr, Suc pos, q'))"
    and p: "length er = 3" "length fr = 3" "map feature er = Options g" "map feature fr = Options g"
      "\<forall>row \<in> set er \<union> set fr.
           true_value row = recomputed_value (feature row) (Pairs g) (Values g)"
    by auto
  from r have "simulate_trials 1 raw np = Some (Inr (er, fr))"
    by (simp add: simulate_trials_def)
  with g p show "\<exists>g er fr. games (str (randint 1 8 (raw pos))) = Some g
           \<and> simulate_trials 1 raw np = Some (Inr (er, fr))
           \<and> length er = 3 \<and> length fr = 3
           \<and> map feature er = Options g \<and> map feature fr = Options g
           \<and> (\<forall>row \<in> set er \<union> set fr.
                 true_value row = recomputed_value (feature row) (Pairs g) (Values g))"
    by blast
qed

lemma simulate_one_trial_witness_returns:
  "\<exists>er fr. simulate_trials 1 witness_raw example_np = Some (Inr (er, fr))
     \<and> length er = 3 \<and> length fr = 3"
proof -
  from initialize_games_witness_returns obtain games pos where
    "initialize_games 8 witness_raw 0 = Some (Inr (games, pos))" by blast
  with simulate_one_trial [of witness_raw example_np] show ?thesis by blast
qed

text \<open>
  C5, as amended. One trial of \<^verbatim>\<open>simulate_trials\<close> raises no error, and when it
  returns it has produced exactly 3 episodic rows and 3 feature rows, one of each per
  feature of the option list of the sampled game and in its order, and the true value of
  every row is the sum, recomputed from the game alone, of the values of the items of
  which the row's feature is the type or the colour.
\<close>

theorem one_trial_rows:
  "simulate_trials 1 raw np \<noteq> Some (Inl e)
   \<and> (\<forall>episodic_results feature_results.
        simulate_trials 1 raw np = Some (Inr (episodic_results, feature_results)) \<longrightarrow>
        (\<exists>games pos g. initialize_games 8 raw 0 = Some (Inr (games, pos))
           \<and> games (str (randint 1 8 (raw pos))) = Some g
           \<and> length episodic_results = 3 \<and> length feature_results = 3
           \<and> map feature episodic_results = Options g
           \<and> map feature feature_results = Options g
           \<and> (\<forall>row \<in> set episodic_results \<union> set feature_results.
                 true_value row = recomputed_value (feature row) (Pairs g) (Values g))))"
proof -
  note s = simulate_one_trial [of raw np]
  consider (none) "initialize_games 8 raw 0 = None"
    | (ret) games pos where "initialize_games 8 raw 0 = Some (Inr (games, pos))"
    using initialize_games_no_error [of raw 0]
    by (cases "initialize_games 8 raw 0") (auto, metis sum.exhaust surj_pair)
  then show ?thesis
  proof cases
    case none
    with s have "simulate_trials 1 raw np = None" by blast
    then show ?thesis by simp
  next
    case ret
    with s obtain g er fr where "games (str (randint 1 8 (raw pos))) = Some g"
      "simulate_trials 1 raw np = Some (Inr (er, fr))"
      "length er = 3" "length fr = 3" "map feature er = Options g" "map feature fr = Options g"
      "\<forall>row \<in> set er \<union> set fr.
           true_value row = recomputed_value (feature row) (Pairs g) (Values g)"
      by blast
    with ret show ?thesis by auto
  qed
qed

theorem one_trial_rows_witness:
  "\<exists>er fr. simulate_trials 1 witness_raw example_np = Some (Inr (er, fr))
     \<and> length er = 3 \<and> length fr = 3 \<and> map feature er = map feature fr"
proof -
  from simulate_one_trial_witness_returns obtain er fr where
    s: "simulate_trials 1 witness_raw example_np = Some (Inr (er, fr))" by blast
  from one_trial_rows [of witness_raw example_np, THEN conjunct2, rule_format, OF s] s
  show ?thesis by auto
qed

text \<open>
  C5 as stated fails on the number of rows: a concrete trial produces 3 episodic rows and
  3 feature rows, not 6 and 6.
\<close>

theorem one_trial_rows_counterexample:
  "row_counts (simulate_trials 1 witness_raw example_np) = Some (3, 3)"
  using simulate_one_trial_witness_returns by (auto simp: row_counts_def)

theorem feature_rows_carry_episodic_recall_witness:
  "\<exists>er fr. simulate_trials 1 witness_raw example_np = Some (Inr (er, fr))
     \<and> list_all2 (same_recall example_np) er fr \<and> length fr = 3"
proof -
  from simulate_one_trial_witness_returns obtain er fr where
    s: "simulate_trials 1 witness_raw example_np = Some (Inr (er, fr))" and "length fr = 3"
    by blast
  with feature_rows_carry_episodic_recall [OF s] show ?thesis by blast
qed

end
